theory Spec2Isabelle
  imports Main "HOL-Library.AList"
begin

section \<open>Values, results and deep equality\<close>

text \<open>
  User values are JavaScript values of type \<^verbatim>\<open>any\<close>.  The model keeps the shapes that
  \<^verbatim>\<open>deepEqual\<close> (utils.ts) distinguishes: primitives, arrays and plain objects.  Numbers
  are the integer-valued ones; object identity (\<^verbatim>\<open>a === b\<close> on two references) is
  subsumed by the structural comparison.
\<close>

datatype jsval =
    JUndefined
  | JNull
  | JBool bool
  | JNum int
  | JStr string
  | JArr "jsval list"
  | JObj "(string \<times> jsval) list"

fun deepEqual :: "jsval \<Rightarrow> jsval \<Rightarrow> bool"
  and deepEqualElems :: "jsval list \<Rightarrow> jsval list \<Rightarrow> bool"
  and deepEqualKeys :: "(string \<times> jsval) list \<Rightarrow> (string \<times> jsval) list \<Rightarrow> bool"
where
  "deepEqual JUndefined b = (b = JUndefined)"
| "deepEqual JNull b = (b = JNull)"
| "deepEqual (JBool x) b = (b = JBool x)"
| "deepEqual (JNum x) b = (b = JNum x)"
| "deepEqual (JStr x) b = (b = JStr x)"
| "deepEqual (JArr xs) b =
     (case b of
        JArr ys \<Rightarrow> if length xs \<noteq> length ys then False else deepEqualElems xs ys
      | _ \<Rightarrow> False)"
| "deepEqual (JObj kvs) b =
     (case b of
        JObj kws \<Rightarrow> if length kvs \<noteq> length kws then False else deepEqualKeys kvs kws
      | _ \<Rightarrow> False)"
| "deepEqualElems [] ys = True"
| "deepEqualElems (x # xs) ys =
     (case ys of [] \<Rightarrow> False | y # ys' \<Rightarrow> if \<not> deepEqual x y then False else deepEqualElems xs ys')"
| "deepEqualKeys [] kws = True"
| "deepEqualKeys (kv # kvs) kws =
     (case map_of kws (fst kv) of
        None \<Rightarrow> False
      | Some w \<Rightarrow> if \<not> deepEqual (snd kv) w then False else deepEqualKeys kvs kws)"

text \<open>types.ts: \<^verbatim>\<open>StructuralError\<close>.\<close>

datatype StructuralErrorReason =
    MissingInput | CircularDependency | InvalidDefinition | DuplicateOutput

record StructuralErrorDetails =
  d_computationId :: string
  d_missingInputs :: "string list option"
  d_cyclePath :: "string list option"
  d_definitionError :: "string option"
  d_conflictsWith :: "string option"

record StructuralError =
  reason :: StructuralErrorReason
  details :: StructuralErrorDetails

text \<open>
  What host code and the kernel throw.  \<open>ThrownValue\<close> is a value thrown by host code (an
  observer callback or a body), \<open>JsError\<close> a plain \<^verbatim>\<open>new Error(message)\<close>, \<open>ThrownStructural\<close>
  the \<^verbatim>\<open>StructuralError\<close> object of a fatal result, and \<open>RangeError\<close> the engine's
  stack exhaustion on a recursion that does not end.
\<close>

datatype thrown =
    ThrownValue jsval
  | JsError string
  | ThrownStructural StructuralError
  | UninitializedError
  | NotImplementedError string
  | AbortException
  | RangeError

text \<open>\<^verbatim>\<open>Result<T>\<close>; an error result stores what the body threw.\<close>

datatype result =
    Success jsval
  | Error thrown
  | Fatal StructuralError
  | Uninitialized

section \<open>Variables, tasks and computations\<close>

text \<open>
  An observer is a host callback.  It is identified by \<open>obs_id\<close> (the identity of the
  function object) and \<open>obs_body r\<close> is \<open>Some e\<close> when the callback throws \<open>e\<close> on the
  result \<open>r\<close> and \<open>None\<close> when it returns.
\<close>

datatype observer = Observer (obs_id: nat) (obs_body: "result \<Rightarrow> jsval option")

text \<open>
  variable.ts.  References to other objects are kept as ids: \<open>producer\<close> is the id of
  the owning computation, \<open>dependents\<close> the ids of the consuming computations in
  insertion order (a JavaScript \<^verbatim>\<open>Set\<close>).
\<close>

record variable =
  var_id :: string
  result :: result
  value_at :: int
  cause_at :: int
  dirty :: bool
  producer :: "string option"
  dependents :: "string list"
  observers :: "observer list"
  observeCount :: int

record RunningTask =
  taskId :: nat
  task_cause_at :: int
  aborted :: bool

datatype ComputationState = Idle | Pending | Ready

text \<open>
  problem_types.ts and types.ts: the reason a computation is quarantined, and the
  definition a client hands to \<^verbatim>\<open>defineComputation\<close> (\<open>def_body\<close> is a handle to the
  host function).
\<close>

datatype ProblemReason =
    ReasonMissingInput "string list"
  | ReasonCircularDependency "string list"
  | ReasonInvalidDefinition string
  | ReasonDuplicateOutput string

record ComputationDefinition =
  def_id :: string
  def_inputs :: "string list"
  def_outputs :: "string list"
  def_body :: nat

record ProblemInfo =
  problemReason :: ProblemReason
  missingInputs :: "string list option"
  origDefinition :: ComputationDefinition

text \<open>
  computation.ts.  The four fields behind setters are the private \<^verbatim>\<open>_dirty\<close>,
  \<^verbatim>\<open>_observeCount\<close>, \<^verbatim>\<open>_dirtyInputCount\<close> and \<^verbatim>\<open>_cause_at\<close>; \<open>scheduler\<close> says whether
  the optional scheduler reference is set; \<open>body\<close> is a handle to the host function.
  A \<^verbatim>\<open>ProblemComputation\<close> is the same object with three more properties; they are the
  field \<open>problem\<close>, which is \<open>None\<close> on a healthy computation.
\<close>

record computation =
  comp_id :: string
  staticInputs :: "string list"
  runtimeInputs :: "string list"
  outputs :: "string list"
  body :: nat
  input_version :: int
  runningTask :: "RunningTask option"
  abortingTasks :: "RunningTask list"
  scheduler :: bool
  c_dirty :: bool
  c_observeCount :: int
  c_dirtyInputCount :: int
  c_cause_at :: int
  problem :: "ProblemInfo option"

text \<open>The getter \<^verbatim>\<open>Computation.state\<close>.\<close>

definition state :: "computation \<Rightarrow> ComputationState" where
  "state c =
     (if \<not> c_dirty c \<or> c_observeCount c = 0 then Idle
      else if c_dirtyInputCount c > 0 then Pending
      else Ready)"


section \<open>The kernel\<close>

datatype LogLevel = LogTrace | LogDebug | LogInfo | LogError

datatype AbortStrategy = Deferred | Immediate

record ReactiveModuleOptions =
  maxConcurrent :: nat
  abortStrategy :: AbortStrategy
  logLevel :: LogLevel
  assertInvariants :: bool

text \<open>Messages written with \<^verbatim>\<open>log('error', ...)\<close>; the error level is never filtered out.\<close>

datatype log_entry =
    ObserverCallbackFailed jsval
  | DirtyInputCountMismatch string int int
  | PropagatingError string thrown
  | ExecutionFailed nat string thrown

text \<open>
  module_core.ts and module_schedule.ts: the tables and the scheduler queue.  The tables
  are JavaScript \<^verbatim>\<open>Map\<close>s, kept as association lists in insertion order.  Two fields
  record what leaves the kernel: \<open>errorLog\<close> the error-level log lines, \<open>delivered\<close> every
  observer invocation as (variable id, observer, result passed), oldest first.
\<close>

record kernel =
  options :: ReactiveModuleOptions
  logicalClock :: int
  variables :: "(string \<times> variable) list"
  computations :: "(string \<times> computation) list"
  problem_variables :: "(string \<times> variable) list"
  problem_computations :: "(string \<times> computation) list"
  outputWaiters :: "(string \<times> string list) list"
  readyQueue :: "string list"
  scheduleScheduled :: bool
  runningTasksCount :: nat
  taskIdCounter :: nat
  errorLog :: "log_entry list"
  delivered :: "(string \<times> nat \<times> result) list"

text \<open>
  A kernel operation either returns or throws; in both cases the mutations made so far
  stay in the kernel.
\<close>

datatype outcome = Returned kernel | Threw thrown kernel

fun kernel_of :: "outcome \<Rightarrow> kernel" where
  "kernel_of (Returned k) = k"
| "kernel_of (Threw e k) = k"

fun andThen :: "outcome \<Rightarrow> (kernel \<Rightarrow> outcome) \<Rightarrow> outcome" where
  "andThen (Returned k) f = f k"
| "andThen (Threw e k) f = Threw e k"

text \<open>A \<^verbatim>\<open>for ... of\<close> loop over a snapshot of a collection; a throw leaves the loop.\<close>

primrec forEach :: "'a list \<Rightarrow> ('a \<Rightarrow> kernel \<Rightarrow> outcome) \<Rightarrow> kernel \<Rightarrow> outcome" where
  "forEach [] f k = Returned k"
| "forEach (x # xs) f k =
     (case f x k of Returned k' \<Rightarrow> forEach xs f k' | Threw e k' \<Rightarrow> Threw e k')"

text \<open>\<^verbatim>\<open>Set.add\<close> and \<^verbatim>\<open>Set.delete\<close> on a set kept in insertion order.\<close>

definition set_add :: "'a \<Rightarrow> 'a list \<Rightarrow> 'a list" where
  "set_add x xs = (if x \<in> set xs then xs else xs @ [x])"

definition set_delete :: "'a \<Rightarrow> 'a list \<Rightarrow> 'a list" where
  "set_delete x xs = filter (\<lambda>y. y \<noteq> x) xs"

text \<open>
  Object references are ids.  A variable reference is resolved in the normal table and
  then in the problem table (the order of \<^verbatim>\<open>_getVariable\<close>); a computation reference
  likewise.  Writing through a reference updates the object where it lives.
\<close>

definition getVar :: "kernel \<Rightarrow> string \<Rightarrow> variable option" where
  "getVar k v =
     (case map_of (variables k) v of
        Some x \<Rightarrow> Some x
      | None \<Rightarrow> map_of (problem_variables k) v)"

definition putVar :: "string \<Rightarrow> variable \<Rightarrow> kernel \<Rightarrow> kernel" where
  "putVar v x k =
     (if map_of (variables k) v \<noteq> None
        then k\<lparr>variables := AList.update v x (variables k)\<rparr>
      else if map_of (problem_variables k) v \<noteq> None
        then k\<lparr>problem_variables := AList.update v x (problem_variables k)\<rparr>
      else k)"

definition getComp :: "kernel \<Rightarrow> string \<Rightarrow> computation option" where
  "getComp k c =
     (case map_of (computations k) c of
        Some x \<Rightarrow> Some x
      | None \<Rightarrow> map_of (problem_computations k) c)"

definition putComp :: "string \<Rightarrow> computation \<Rightarrow> kernel \<Rightarrow> kernel" where
  "putComp c x k =
     (if map_of (computations k) c \<noteq> None
        then k\<lparr>computations := AList.update c x (computations k)\<rparr>
      else if map_of (problem_computations k) c \<noteq> None
        then k\<lparr>problem_computations := AList.update c x (problem_computations k)\<rparr>
      else k)"

subsection \<open>module_schedule.ts and the setters of computation.ts\<close>

text \<open>
  \<^verbatim>\<open>addToReadyQueue\<close>.  The timer it arms runs \<^verbatim>\<open>_scheduleNext\<close> on a later tick; here it
  only sets \<open>scheduleScheduled\<close>.
\<close>

definition addToReadyQueue :: "string \<Rightarrow> kernel \<Rightarrow> kernel" where
  "addToReadyQueue c k =
     (case getComp k c of
        None \<Rightarrow> k
      | Some cp \<Rightarrow>
          if c \<notin> set (readyQueue k) \<and> runningTask cp = None
          then k\<lparr>readyQueue := readyQueue k @ [c], scheduleScheduled := True\<rparr>
          else k)"

definition checkScheduleNeeded :: "string \<Rightarrow> ComputationState \<Rightarrow> kernel \<Rightarrow> kernel" where
  "checkScheduleNeeded c newState k =
     (case getComp k c of
        None \<Rightarrow> k
      | Some cp \<Rightarrow>
          if newState = Ready \<and> runningTask cp = None \<and> scheduler cp
          then addToReadyQueue c k
          else k)"

text \<open>
  \<^verbatim>\<open>abortTask\<close>: fire the task's signal, move the task to \<open>abortingTasks\<close>, clear
  \<open>runningTask\<close>, look at scheduling again.  Listeners that host code attached to the
  signal run outside this model.
\<close>

definition abortTask :: "string \<Rightarrow> kernel \<Rightarrow> kernel" where
  "abortTask c k =
     (case getComp k c of
        None \<Rightarrow> k
      | Some cp \<Rightarrow>
          (case runningTask cp of
             None \<Rightarrow> k
           | Some task \<Rightarrow>
               let task' = task\<lparr>aborted := True\<rparr>;
                   cp' = cp\<lparr>abortingTasks := set_add task' (abortingTasks cp),
                               runningTask := None\<rparr>
               in checkScheduleNeeded c (state cp') (putComp c cp' k)))"

definition checkAbortNeeded ::
  "string \<Rightarrow> ComputationState \<Rightarrow> ComputationState \<Rightarrow> kernel \<Rightarrow> kernel" where
  "checkAbortNeeded c oldState newState k =
     (case getComp k c of
        None \<Rightarrow> k
      | Some cp \<Rightarrow>
          if oldState \<noteq> Ready \<or> runningTask cp = None then k
          else if newState = Pending then abortTask c k
          else if newState = Idle then (if c_dirty cp then abortTask c k else k)
          else k)"

definition onStateChange :: "string \<Rightarrow> ComputationState \<Rightarrow> kernel \<Rightarrow> kernel" where
  "onStateChange c oldState k =
     (case getComp k c of
        None \<Rightarrow> k
      | Some cp \<Rightarrow>
          let newState = state cp in
          if oldState = newState then k
          else checkScheduleNeeded c newState (checkAbortNeeded c oldState newState k))"

definition set_dirty :: "string \<Rightarrow> bool \<Rightarrow> kernel \<Rightarrow> kernel" where
  "set_dirty c v k =
     (case getComp k c of
        None \<Rightarrow> k
      | Some cp \<Rightarrow>
          if c_dirty cp = v then k
          else onStateChange c (state cp) (putComp c (cp\<lparr>c_dirty := v\<rparr>) k))"

definition set_observeCount :: "string \<Rightarrow> int \<Rightarrow> kernel \<Rightarrow> kernel" where
  "set_observeCount c v k =
     (case getComp k c of
        None \<Rightarrow> k
      | Some cp \<Rightarrow>
          if c_observeCount cp = v then k
          else onStateChange c (state cp) (putComp c (cp\<lparr>c_observeCount := v\<rparr>) k))"

definition set_dirtyInputCount :: "string \<Rightarrow> int \<Rightarrow> kernel \<Rightarrow> kernel" where
  "set_dirtyInputCount c v k =
     (case getComp k c of
        None \<Rightarrow> k
      | Some cp \<Rightarrow>
          if c_dirtyInputCount cp = v then k
          else onStateChange c (state cp) (putComp c (cp\<lparr>c_dirtyInputCount := v\<rparr>) k))"

definition checkAbortOnCauseAtChange :: "string \<Rightarrow> int \<Rightarrow> int \<Rightarrow> kernel \<Rightarrow> kernel" where
  "checkAbortOnCauseAtChange c oldCauseAt newCauseAt k =
     (case getComp k c of
        None \<Rightarrow> k
      | Some cp \<Rightarrow>
          (case runningTask cp of
             None \<Rightarrow> k
           | Some task \<Rightarrow> if task_cause_at task < newCauseAt then abortTask c k else k))"

definition set_cause_at :: "string \<Rightarrow> int \<Rightarrow> kernel \<Rightarrow> kernel" where
  "set_cause_at c v k =
     (case getComp k c of
        None \<Rightarrow> k
      | Some cp \<Rightarrow>
          let oldCauseAt = c_cause_at cp;
              k1 = putComp c (cp\<lparr>c_cause_at := v\<rparr>) k
          in if oldCauseAt \<noteq> v then checkAbortOnCauseAtChange c oldCauseAt v k1 else k1)"

subsection \<open>module_core.ts\<close>

definition nextLogicalClock :: "kernel \<Rightarrow> int \<times> kernel" where
  "nextLogicalClock k = (logicalClock k + 1, k\<lparr>logicalClock := logicalClock k + 1\<rparr>)"

definition isInputOfComputation :: "variable \<Rightarrow> computation \<Rightarrow> bool" where
  "isInputOfComputation v cp = (var_id v \<in> set (staticInputs cp))"

definition logError :: "log_entry \<Rightarrow> kernel \<Rightarrow> kernel" where
  "logError e k = k\<lparr>errorLog := errorLog k @ [e]\<rparr>"

subsection \<open>module_propagation.ts: cleaning a variable\<close>

text \<open>
  \<^verbatim>\<open>notifyObservers\<close> calls every observer of the variable with its result; nothing
  catches what a callback throws.
\<close>

definition callObserver :: "string \<Rightarrow> observer \<Rightarrow> kernel \<Rightarrow> outcome" where
  "callObserver v ob k =
     (case getVar k v of
        None \<Rightarrow> Returned k
      | Some x \<Rightarrow>
          let k1 = k\<lparr>delivered := delivered k @ [(v, obs_id ob, result x)]\<rparr> in
          (case obs_body ob (result x) of
             Some e \<Rightarrow> Threw (ThrownValue e) k1
           | None \<Rightarrow> Returned k1))"

definition notifyObservers :: "string \<Rightarrow> kernel \<Rightarrow> outcome" where
  "notifyObservers v k =
     (case getVar k v of
        None \<Rightarrow> Returned k
      | Some x \<Rightarrow> forEach (observers x) (callObserver v) k)"

definition calculateConservativeDirtyInputCount :: "kernel \<Rightarrow> computation \<Rightarrow> int" where
  "calculateConservativeDirtyInputCount k cp =
     int (length (filter
       (\<lambda>i. case getVar k i of None \<Rightarrow> False | Some x \<Rightarrow> producer x \<noteq> None \<and> dirty x)
       (runtimeInputs cp)))"

definition assertDirtyInputCount :: "string \<Rightarrow> kernel \<Rightarrow> outcome" where
  "assertDirtyInputCount c k =
     (if \<not> assertInvariants (options k) then Returned k
      else (case getComp k c of
              None \<Rightarrow> Returned k
            | Some cp \<Rightarrow>
                let conservativeCount = calculateConservativeDirtyInputCount k cp in
                if c_dirtyInputCount cp \<noteq> conservativeCount
                then Threw (JsError ''dirtyInputCount mismatch'')
                       (logError (DirtyInputCountMismatch c (c_dirtyInputCount cp)
                                    conservativeCount) k)
                else Returned k))"

definition decrementDirtyInputCount :: "string \<Rightarrow> string \<Rightarrow> kernel \<Rightarrow> outcome" where
  "decrementDirtyInputCount c v k =
     (case (getComp k c, getVar k v) of
        (Some cp, Some x) \<Rightarrow>
          if producer x \<noteq> None
          then assertDirtyInputCount c (set_dirtyInputCount c (c_dirtyInputCount cp - 1) k)
          else Returned k
      | _ \<Rightarrow> Returned k)"

text \<open>\<^verbatim>\<open>_cleanVariable\<close>; \<^verbatim>\<open>tryTransitionToReady\<close> only writes a debug line.\<close>

definition cleanVariable :: "string \<Rightarrow> kernel \<Rightarrow> outcome" where
  "cleanVariable v k =
     andThen (notifyObservers v k) (\<lambda>k1.
       case getVar k1 v of
         None \<Rightarrow> Returned k1
       | Some x \<Rightarrow>
           forEach (dependents x)
             (\<lambda>c k2. case (getComp k2 c, getVar k2 v) of
                        (Some cp, Some x2) \<Rightarrow>
                          if isInputOfComputation x2 cp
                          then decrementDirtyInputCount c v k2
                          else Returned k2
                      | _ \<Rightarrow> Returned k2)
             k1)"

definition cleanOutputDirty :: "string \<Rightarrow> kernel \<Rightarrow> outcome" where
  "cleanOutputDirty c k =
     (case getComp k c of
        None \<Rightarrow> Returned k
      | Some cp \<Rightarrow>
          forEach (outputs cp)
            (\<lambda>out k1. case getVar k1 out of
                         None \<Rightarrow> Returned k1
                       | Some x \<Rightarrow> cleanVariable out (putVar out (x\<lparr>dirty := False\<rparr>) k1))
            k)"

primrec getMaxInputVersionFrom :: "kernel \<Rightarrow> int \<Rightarrow> string list \<Rightarrow> int" where
  "getMaxInputVersionFrom k maxVersion [] = maxVersion"
| "getMaxInputVersionFrom k maxVersion (i # inputs) =
     getMaxInputVersionFrom k
       (case getVar k i of None \<Rightarrow> maxVersion | Some x \<Rightarrow> max maxVersion (value_at x))
       inputs"

definition getMaxInputVersion :: "kernel \<Rightarrow> string list \<Rightarrow> int" where
  "getMaxInputVersion k inputs = getMaxInputVersionFrom k 0 inputs"

definition isStale :: "kernel \<Rightarrow> computation \<Rightarrow> bool" where
  "isStale k cp =
     (if input_version cp = 0 then True
      else getMaxInputVersion k (runtimeInputs cp) > input_version cp)"

subsection \<open>module_propagation.ts: downward propagation of \<open>cause_at\<close>\<close>

definition tryIncrementDirtyInputCount ::
  "string \<Rightarrow> string option \<Rightarrow> bool \<Rightarrow> kernel \<Rightarrow> outcome" where
  "tryIncrementDirtyInputCount c sourceVariable isNewDirty k =
     (case sourceVariable of
        None \<Rightarrow> Returned k
      | Some s \<Rightarrow>
          (case (getComp k c, getVar k s) of
             (Some cp, Some sv) \<Rightarrow>
               if \<not> isNewDirty \<or> \<not> isInputOfComputation sv cp then Returned k
               else if producer sv \<noteq> None \<and> dirty sv
               then assertDirtyInputCount c
                      (set_dirtyInputCount c (c_dirtyInputCount cp + 1) k)
               else Returned k
           | _ \<Rightarrow> Returned k))"

definition updateCauseAt :: "string \<Rightarrow> int \<Rightarrow> kernel \<Rightarrow> kernel" where
  "updateCauseAt c newCauseAt k = set_cause_at c newCauseAt k"

text \<open>
  \<^verbatim>\<open>propagateToOutputs\<close>; \<open>recur\<close> stands for \<^verbatim>\<open>this._propagateCauseAtDownward\<close>.
\<close>

definition propagateToOutputs ::
  "(string \<Rightarrow> int \<Rightarrow> string option \<Rightarrow> bool \<Rightarrow> kernel \<Rightarrow> outcome)
   \<Rightarrow> string \<Rightarrow> int \<Rightarrow> kernel \<Rightarrow> outcome" where
  "propagateToOutputs recur c newCauseAt k =
     (case getComp k c of
        None \<Rightarrow> Returned k
      | Some cp \<Rightarrow>
          forEach (outputs cp)
            (\<lambda>out k4.
               case (getVar k4 out, getComp k4 c) of
                 (Some x, Some cp4) \<Rightarrow>
                   let wasOutputDirty = dirty x;
                       k5 = putVar out (x\<lparr>cause_at := c_cause_at cp4, dirty := True\<rparr>) k4
                   in forEach (dependents x)
                        (\<lambda>downstreamComp k6.
                           recur downstreamComp newCauseAt (Some out) (\<not> wasOutputDirty) k6)
                        k5
               | _ \<Rightarrow> Returned k4)
            k)"

text \<open>
  \<^verbatim>\<open>_propagateCauseAtDownward\<close>.  The first argument bounds the depth of the recursion; at
  depth zero the engine's stack is exhausted.
\<close>

primrec propagateCauseAtDownwardRec ::
  "nat \<Rightarrow> string \<Rightarrow> int \<Rightarrow> string option \<Rightarrow> bool \<Rightarrow> kernel \<Rightarrow> outcome" where
  "propagateCauseAtDownwardRec 0 c newCauseAt sourceVariable isNewDirty k = Threw RangeError k"
| "propagateCauseAtDownwardRec (Suc depth) c newCauseAt sourceVariable isNewDirty k =
     andThen (tryIncrementDirtyInputCount c sourceVariable isNewDirty k) (\<lambda>k1.
       case getComp k1 c of
         None \<Rightarrow> Returned k1
       | Some cp \<Rightarrow>
           if newCauseAt \<le> c_cause_at cp then Returned k1
           else propagateToOutputs (propagateCauseAtDownwardRec depth) c newCauseAt
                  (set_dirty c True (updateCauseAt c newCauseAt k1)))"

text \<open>
  Every call that goes on raises the \<open>cause_at\<close> of a computation that was below
  \<open>newCauseAt\<close>, so the recursion is never deeper than the number of computations.
\<close>

definition propagateCauseAtDownward ::
  "string \<Rightarrow> int \<Rightarrow> string option \<Rightarrow> bool \<Rightarrow> kernel \<Rightarrow> outcome" where
  "propagateCauseAtDownward c newCauseAt sourceVariable isNewDirty k =
     propagateCauseAtDownwardRec
       (Suc (length (computations k) + length (problem_computations k)))
       c newCauseAt sourceVariable isNewDirty k"

definition markDirty :: "string \<Rightarrow> int \<Rightarrow> bool \<Rightarrow> kernel \<Rightarrow> outcome" where
  "markDirty v t isNewDirty k =
     (case getVar k v of
        None \<Rightarrow> Returned k
      | Some x \<Rightarrow>
          forEach (dependents x) (\<lambda>c k1. propagateCauseAtDownward c t (Some v) isNewDirty k1) k)"

subsection \<open>module_propagation.ts: updating a source\<close>

definition getVariable :: "kernel \<Rightarrow> string \<Rightarrow> thrown + variable" where
  "getVariable k v =
     (case getVar k v of
        None \<Rightarrow> Inl (JsError (''Variable '' @ v @ '' not found.''))
      | Some x \<Rightarrow> Inr x)"

definition updateSource :: "string \<Rightarrow> jsval \<Rightarrow> kernel \<Rightarrow> outcome" where
  "updateSource variableId val k =
     (let (currentLogicalClock, k1) = nextLogicalClock k in
      case getVariable k1 variableId of
        Inl e \<Rightarrow> Threw e k1
      | Inr x \<Rightarrow>
          if producer x \<noteq> None
          then Threw (JsError (''Cannot update variable '' @ variableId @
                               '' directly as it is produced by a computation.'')) k1
          else
            let oldValue = (case result x of Success ov \<Rightarrow> ov | _ \<Rightarrow> JUndefined);
                valueChanged = (\<not> deepEqual oldValue val);
                x1 = (if valueChanged
                      then x\<lparr>result := Success val, value_at := currentLogicalClock\<rparr>
                      else x);
                x2 = x1\<lparr>cause_at := currentLogicalClock, dirty := False\<rparr>;
                k2 = putVar variableId x2 k1
            in andThen (markDirty variableId currentLogicalClock True k2)
                 (cleanVariable variableId))"

subsection \<open>module_propagation.ts: upward propagation of \<open>observeCount\<close>\<close>

text \<open>\<^verbatim>\<open>Math.max(...inputs.map(v => v.cause_at))\<close>; \<open>None\<close> is the \<^verbatim>\<open>-Infinity\<close> of no input.\<close>

primrec maxCauseAtFrom :: "kernel \<Rightarrow> int option \<Rightarrow> string list \<Rightarrow> int option" where
  "maxCauseAtFrom k m [] = m"
| "maxCauseAtFrom k m (i # inputs) =
     maxCauseAtFrom k
       (case getVar k i of
          None \<Rightarrow> m
        | Some x \<Rightarrow> (case m of None \<Rightarrow> Some (cause_at x) | Some y \<Rightarrow> Some (max y (cause_at x))))
       inputs"

definition maxInputCauseAt :: "kernel \<Rightarrow> string list \<Rightarrow> int option" where
  "maxInputCauseAt k inputs = maxCauseAtFrom k None inputs"

fun propagateObserveCountUpwardRec :: "nat \<Rightarrow> string \<Rightarrow> int \<Rightarrow> kernel \<Rightarrow> outcome" where
  "propagateObserveCountUpwardRec 0 v delta k = Threw RangeError k"
| "propagateObserveCountUpwardRec (Suc depth) v delta k =
     (if delta = 0 then Returned k
      else
        case getVar k v of
          None \<Rightarrow> Returned k
        | Some x \<Rightarrow>
            let k1 = putVar v (x\<lparr>observeCount := observeCount x + delta\<rparr>) k in
            (case producer x of
               None \<Rightarrow> Returned k1
             | Some p \<Rightarrow>
                 (case getComp k1 p of
                    None \<Rightarrow> Returned k1
                  | Some pr \<Rightarrow>
                      let k2 = set_observeCount p (c_observeCount pr + delta) k1 in
                      andThen
                        (forEach (runtimeInputs pr)
                           (\<lambda>input k3. propagateObserveCountUpwardRec depth input delta k3) k2)
                        (\<lambda>k4.
                           case getComp k4 p of
                             None \<Rightarrow> Returned k4
                           | Some pr4 \<Rightarrow>
                               if delta > 0 \<and> \<not> c_dirty pr4 \<and> isStale k4 pr4
                               then (case maxInputCauseAt k4 (runtimeInputs pr4) of
                                       None \<Rightarrow> Returned k4
                                     | Some m \<Rightarrow>
                                         if m > c_cause_at pr4
                                         then propagateCauseAtDownward p m None False k4
                                         else Returned k4)
                               else Returned k4))))"

text \<open>
  On a graph without a cycle the recursion visits one more computation at each level;
  a cycle through runtime inputs exhausts the stack.
\<close>

definition propagateObserveCountUpward :: "string \<Rightarrow> int \<Rightarrow> kernel \<Rightarrow> outcome" where
  "propagateObserveCountUpward v delta k =
     propagateObserveCountUpwardRec
       (Suc (length (computations k) + length (problem_computations k))) v delta k"

subsection \<open>module_core.ts: observing\<close>

definition addObserver :: "observer \<Rightarrow> observer list \<Rightarrow> observer list" where
  "addObserver callback obs =
     (if obs_id callback \<in> set (map obs_id obs) then obs else obs @ [callback])"

definition deleteObserver :: "observer \<Rightarrow> observer list \<Rightarrow> observer list" where
  "deleteObserver callback obs = filter (\<lambda>ob. obs_id ob \<noteq> obs_id callback) obs"

text \<open>
  \<^verbatim>\<open>_observe\<close>: register, propagate the count upward, and call the observer at once when
  the variable is clean; here a throw of the callback is caught and logged.
\<close>

definition observe :: "string \<Rightarrow> observer \<Rightarrow> kernel \<Rightarrow> outcome" where
  "observe variableId callback k =
     (case getVar k variableId of
        None \<Rightarrow> Threw (JsError (''Variable '' @ variableId @ '' not found.'')) k
      | Some x \<Rightarrow>
          let k1 = putVar variableId (x\<lparr>observers := addObserver callback (observers x)\<rparr>) k in
          andThen (propagateObserveCountUpward variableId 1 k1) (\<lambda>k2.
            case getVar k2 variableId of
              None \<Rightarrow> Returned k2
            | Some x2 \<Rightarrow>
                if dirty x2 = False
                then
                  let k3 = k2\<lparr>delivered := delivered k2 @ [(variableId, obs_id callback, result x2)]\<rparr>
                  in (case obs_body callback (result x2) of
                        Some e \<Rightarrow> Returned (logError (ObserverCallbackFailed e) k3)
                      | None \<Rightarrow> Returned k3)
                else Returned k2))"

text \<open>The closure \<^verbatim>\<open>_observe\<close> returns.\<close>

definition unsubscribe :: "string \<Rightarrow> observer \<Rightarrow> kernel \<Rightarrow> outcome" where
  "unsubscribe variableId callback k =
     (case getVar k variableId of
        None \<Rightarrow> Returned k
      | Some x \<Rightarrow>
          propagateObserveCountUpward variableId (- 1)
            (putVar variableId (x\<lparr>observers := deleteObserver callback (observers x)\<rparr>) k))"

subsection \<open>module_execution.ts and reactive_module.ts: pull evaluation\<close>

text \<open>
  \<^verbatim>\<open>_evaluate\<close> answers at once for a clean variable and for a source; for a dirty
  computed variable it observes and waits for a later notification (\<open>None\<close> here).
\<close>

definition evaluate :: "variable \<Rightarrow> result option" where
  "evaluate x =
     (if \<not> dirty x then Some (result x)
      else if producer x = None then Some (result x)
      else None)"

datatype 'a promise = Resolved 'a | Rejected thrown | AwaitingNotification

text \<open>\<^verbatim>\<open>ReactiveModule.getValue\<close> (reactive_module.ts), after \<^verbatim>\<open>evaluate\<close> has delivered \<open>r\<close>.\<close>

definition getValueFrom :: "string \<Rightarrow> result \<Rightarrow> jsval promise" where
  "getValueFrom variableId r =
     (case r of
        Success v \<Rightarrow> Resolved v
      | Error e \<Rightarrow> Rejected e
      | _ \<Rightarrow> Rejected (JsError (''Variable '' @ variableId @
                                  '' is uninitialized and has no value.'')))"

definition getValue :: "kernel \<Rightarrow> string \<Rightarrow> jsval promise" where
  "getValue k variableId =
     (case getVariable k variableId of
        Inl e \<Rightarrow> Rejected e
      | Inr x \<Rightarrow>
          (case evaluate x of
             None \<Rightarrow> AwaitingNotification
           | Some r \<Rightarrow> getValueFrom variableId r))"

text \<open>
  The private \<^verbatim>\<open>_getValue\<close> of module_execution.ts, which \<^verbatim>\<open>ReactiveModule.getValue\<close>
  overrides, and which the scope proxy's \<^verbatim>\<open>scopeGetter\<close> repeats.
\<close>

definition getValueExecutionFrom :: "result \<Rightarrow> jsval promise" where
  "getValueExecutionFrom r =
     (case r of
        Error e \<Rightarrow> Rejected e
      | Fatal se \<Rightarrow> Rejected (ThrownStructural se)
      | Uninitialized \<Rightarrow> Rejected UninitializedError
      | Success v \<Rightarrow> Resolved v)"

definition getValueResult :: "kernel \<Rightarrow> string \<Rightarrow> result promise" where
  "getValueResult k variableId =
     (case getVariable k variableId of
        Inl e \<Rightarrow> Rejected e
      | Inr x \<Rightarrow> (case evaluate x of None \<Rightarrow> AwaitingNotification | Some r \<Rightarrow> Resolved r))"

subsection \<open>module_execution.ts: dispatching a computation\<close>

definition shouldExecute :: "kernel \<Rightarrow> computation \<Rightarrow> bool" where
  "shouldExecute k cp =
     (if input_version cp = 0 then True
      else getMaxInputVersion k (runtimeInputs cp) > input_version cp)"

text \<open>\<^verbatim>\<open>maybeSkipExecution\<close>: the flag it returns, and what it did to the kernel.\<close>

definition maybeSkipExecution :: "string \<Rightarrow> kernel \<Rightarrow> bool \<times> outcome" where
  "maybeSkipExecution c k =
     (case getComp k c of
        None \<Rightarrow> (False, Returned k)
      | Some cp \<Rightarrow>
          let shouldRun = shouldExecute k cp in
          if \<not> shouldRun
          then (True, andThen (cleanOutputDirty c k) (\<lambda>k1. Returned (set_dirty c False k1)))
          else (False, Returned k))"

definition setupExecutionTask :: "string \<Rightarrow> nat \<Rightarrow> kernel \<Rightarrow> kernel" where
  "setupExecutionTask c tid k =
     (case getComp k c of
        None \<Rightarrow> k
      | Some cp \<Rightarrow>
          putComp c (cp\<lparr>runningTask :=
            Some \<lparr>taskId = tid, task_cause_at = c_cause_at cp, aborted = False\<rparr>\<rparr>) k)"

text \<open>
  \<^verbatim>\<open>_executeComputation\<close> up to the call of the body: the guard, the task id, input
  pruning, the task.  \<open>BodyInvoked\<close> is the only outcome in which the body is called.
\<close>

datatype dispatch =
    GuardFailed kernel
  | InputPruned kernel
  | BodyInvoked nat kernel
  | DispatchThrew thrown kernel

definition executeComputation :: "string \<Rightarrow> kernel \<Rightarrow> dispatch" where
  "executeComputation c k =
     (case getComp k c of
        None \<Rightarrow> GuardFailed k
      | Some cp \<Rightarrow>
          if state cp \<noteq> Ready \<or> c_observeCount cp = 0 then GuardFailed k
          else
            let tid = taskIdCounter k + 1;
                k1 = k\<lparr>taskIdCounter := tid\<rparr>
            in (case maybeSkipExecution c k1 of
                  (skipped, Threw e k2) \<Rightarrow> DispatchThrew e k2
                | (True, Returned k2) \<Rightarrow> InputPruned k2
                | (False, Returned k2) \<Rightarrow> BodyInvoked tid (setupExecutionTask c tid k2)))"

subsection \<open>module_execution.ts: committing what the body returned or threw\<close>

definition oldValueOf :: "variable \<Rightarrow> jsval" where
  "oldValueOf x = (case result x of Success v \<Rightarrow> v | _ \<Rightarrow> JUndefined)"

text \<open>\<^verbatim>\<open>newOutputs[id]\<close> on the record the body returned.\<close>

definition outputOf :: "(string \<times> jsval) list \<Rightarrow> string \<Rightarrow> jsval" where
  "outputOf newOutputs out = (case map_of newOutputs out of None \<Rightarrow> JUndefined | Some v \<Rightarrow> v)"

definition outputValueChanged :: "kernel \<Rightarrow> (string \<times> jsval) list \<Rightarrow> string \<Rightarrow> bool" where
  "outputValueChanged k newOutputs out =
     (case getVar k out of
        None \<Rightarrow> False
      | Some x \<Rightarrow> \<not> deepEqual (oldValueOf x) (outputOf newOutputs out))"

definition updateOutputs :: "string \<Rightarrow> (string \<times> jsval) list \<Rightarrow> kernel \<Rightarrow> outcome" where
  "updateOutputs c newOutputs k =
     (case getComp k c of
        None \<Rightarrow> Returned k
      | Some cp \<Rightarrow>
          let hasValueChange = list_ex (outputValueChanged k newOutputs) (outputs cp);
              (newValueAt, k1) = (if hasValueChange then nextLogicalClock k else (0, k))
          in forEach (outputs cp)
               (\<lambda>out k2.
                  case (getVar k2 out, getComp k2 c) of
                    (Some x, Some cp2) \<Rightarrow>
                      let valueChanged = \<not> deepEqual (oldValueOf x) (outputOf newOutputs out);
                          x1 = (if valueChanged
                                then x\<lparr>result := Success (outputOf newOutputs out),
                                       value_at := newValueAt\<rparr>
                                else x);
                          x2 = x1\<lparr>cause_at := c_cause_at cp2, dirty := False\<rparr>
                      in cleanVariable out (putVar out x2 k2)
                  | _ \<Rightarrow> Returned k2)
               k1)"

definition updateOutputsWithError :: "string \<Rightarrow> thrown \<Rightarrow> kernel \<Rightarrow> outcome" where
  "updateOutputsWithError c err k =
     (case getComp k c of
        None \<Rightarrow> Returned k
      | Some cp \<Rightarrow>
          let k0 = (if logLevel (options k) = LogError
                    then logError (PropagatingError c err) k else k)
          in forEach (outputs cp)
               (\<lambda>out k1.
                  case (getVar k1 out, getComp k1 c) of
                    (Some x, Some cp1) \<Rightarrow>
                      let (t, k2) = nextLogicalClock k1;
                          x1 = x\<lparr>result := Error err, value_at := t,
                                 cause_at := c_cause_at cp1, dirty := False\<rparr>
                      in cleanVariable out (putVar out x1 k2)
                  | _ \<Rightarrow> Returned k1)
               k0)"

definition cleanUnusedInputs :: "string \<Rightarrow> string list \<Rightarrow> kernel \<Rightarrow> outcome" where
  "cleanUnusedInputs c accessedVariables k =
     (case getComp k c of
        None \<Rightarrow> Returned k
      | Some cp \<Rightarrow>
          andThen
            (forEach (filter (\<lambda>i. i \<notin> set accessedVariables) (runtimeInputs cp))
               (\<lambda>input k1.
                  case (getComp k1 c, getVar k1 input) of
                    (Some cp1, Some x) \<Rightarrow>
                      let k2 = putVar input (x\<lparr>dependents := set_delete c (dependents x)\<rparr>)
                                 (putComp c (cp1\<lparr>runtimeInputs :=
                                    set_delete input (runtimeInputs cp1)\<rparr>) k1)
                      in andThen
                           (if c_observeCount cp1 > 0
                            then propagateObserveCountUpward input (- c_observeCount cp1) k2
                            else Returned k2)
                           (\<lambda>k3.
                              case (getComp k3 c, getVar k3 input) of
                                (Some cp3, Some x3) \<Rightarrow>
                                  if dirty x3 \<and> producer x3 \<noteq> None
                                  then Returned
                                         (set_dirtyInputCount c (c_dirtyInputCount cp3 - 1) k3)
                                  else Returned k3
                              | _ \<Rightarrow> Returned k3)
                  | _ \<Rightarrow> Returned k1)
               k)
            (assertDirtyInputCount c))"

definition set_input_version :: "string \<Rightarrow> kernel \<Rightarrow> kernel" where
  "set_input_version c k =
     (case getComp k c of
        None \<Rightarrow> k
      | Some cp \<Rightarrow>
          putComp c (cp\<lparr>input_version := getMaxInputVersion k (runtimeInputs cp)\<rparr>) k)"

definition handleExecutionSuccess ::
  "string \<Rightarrow> (string \<times> jsval) list \<Rightarrow> string list \<Rightarrow> kernel \<Rightarrow> outcome" where
  "handleExecutionSuccess c newOutputs accessedVariables k =
     andThen (updateOutputs c newOutputs k) (\<lambda>k1.
       andThen (cleanUnusedInputs c accessedVariables k1) (\<lambda>k2.
         Returned (set_input_version c (set_dirty c False k2))))"

text \<open>
  \<^verbatim>\<open>handleExecutionError\<close> always rethrows the error it was given; before that, an error
  that is not an abort is written to the outputs.
\<close>

definition isAbortError :: "thrown \<Rightarrow> bool" where
  "isAbortError e = (e = AbortException)"

definition handleExecutionError :: "string \<Rightarrow> thrown \<Rightarrow> nat \<Rightarrow> kernel \<Rightarrow> outcome" where
  "handleExecutionError c err tid k =
     (if isAbortError err then Threw err k
      else
        andThen (updateOutputsWithError c err (logError (ExecutionFailed tid c err) k)) (\<lambda>k1.
          Threw err (set_input_version c (set_dirty c False k1))))"

subsection \<open>module_execution.ts: dynamic dependencies\<close>






section \<open>Example kernels\<close>

text \<open>The options and the empty tables the constructor of \<^verbatim>\<open>ReactiveModuleCore\<close> installs.\<close>

definition defaultOptions :: ReactiveModuleOptions where
  "defaultOptions = \<lparr>maxConcurrent = 16, abortStrategy = Deferred, logLevel = LogError,
                      assertInvariants = False\<rparr>"

definition newKernel :: kernel where
  "newKernel = \<lparr>options = defaultOptions, logicalClock = 0, variables = [], computations = [],
                 problem_variables = [], problem_computations = [], outputWaiters = [],
                 readyQueue = [], scheduleScheduled = False, runningTasksCount = 0,
                 taskIdCounter = 0, errorLog = [], delivered = []\<rparr>"

text \<open>
  A source \<open>x = 1\<close>, as \<^verbatim>\<open>defineSource({id: 'x', initialValue: 1})\<close> leaves it, and an observer
  whose callback throws.
\<close>

definition throwingObserver :: observer where
  "throwingObserver = Observer 1 (\<lambda>r. Some (JStr ''boom''))"

definition sourceX :: kernel where
  "sourceX = newKernel\<lparr>logicalClock := 2,
     variables := [(''x'', \<lparr>var_id = ''x'', result = Success (JNum 1), value_at = 2, cause_at = 2,
                            dirty = False, producer = None, dependents = [],
                            observers = [], observeCount = 0\<rparr>)]\<rparr>"

text \<open>
  A computation \<open>B\<close> with output \<open>vB\<close> defined on the undefined input \<open>A\<close>: it is quarantined
  and its output is a problem variable with a fatal result.
\<close>

definition fatalVB :: StructuralError where
  "fatalVB = \<lparr>reason = MissingInput,
     details = \<lparr>d_computationId = ''B'', d_missingInputs = Some [''A''], d_cyclePath = None,
                d_definitionError = None, d_conflictsWith = None\<rparr>\<rparr>"

definition quarantinedB :: kernel where
  "quarantinedB = newKernel\<lparr>
     problem_variables := [(''vB'', \<lparr>var_id = ''vB'', result = Fatal fatalVB, value_at = 0,
        cause_at = 0, dirty = False, producer = Some ''B'', dependents = [], observers = [],
        observeCount = 0\<rparr>)],
     problem_computations := [(''B'', \<lparr>comp_id = ''B'', staticInputs = [''A''],
        runtimeInputs = [], outputs = [''vB''], body = 0, input_version = 0, runningTask = None,
        abortingTasks = [], scheduler = False, c_dirty = False, c_observeCount = 0,
        c_dirtyInputCount = 0, c_cause_at = 0,
        problem = Some \<lparr>problemReason = ReasonMissingInput [''A''], missingInputs = Some [''A''],
          origDefinition = \<lparr>def_id = ''B'', def_inputs = [''A''], def_outputs = [''vB''],
                             def_body = 0\<rparr>\<rparr>\<rparr>)]\<rparr>"

section \<open>Views of the kernel used in the proofs\<close>

definition frame :: "kernel \<Rightarrow> (ReactiveModuleOptions \<times> int \<times> (string \<times> variable) list \<times> (string \<times> variable) list \<times> (string \<times> string list) list \<times> nat \<times> nat \<times> log_entry list \<times> (string \<times> nat \<times> result) list)" where
  "frame k = (options k, logicalClock k, variables k, problem_variables k, outputWaiters k, runningTasksCount k, taskIdCounter k, errorLog k, delivered k)"

definition profile :: "(computation \<Rightarrow> 'a) \<Rightarrow> kernel \<Rightarrow> (string \<times> 'a) list \<times> (string \<times> 'a) list" where
  "profile f k = (map (\<lambda>p. (fst p, f (snd p))) (computations k),
                  map (\<lambda>p. (fst p, f (snd p))) (problem_computations k))"

definition sched_blind :: "(computation \<Rightarrow> 'a) \<Rightarrow> bool" where
  "sched_blind f = (\<forall>cp a t. f (cp\<lparr>abortingTasks := a, runningTask := t\<rparr>) = f cp)"

definition vframe :: "kernel \<Rightarrow> ReactiveModuleOptions \<times> int \<times> (string \<times> variable) list \<times> (string \<times> variable) list" where
  "vframe k = (options k, logicalClock k, variables k, problem_variables k)"

definition dic_le :: "kernel \<Rightarrow> kernel \<Rightarrow> bool" where
  "dic_le k k' = (\<forall>d cd. getComp k d = Some cd \<longrightarrow>
      (\<exists>cd'. getComp k' d = Some cd' \<and> c_dirtyInputCount cd' \<le> c_dirtyInputCount cd))"

definition kept :: "kernel \<Rightarrow> kernel \<Rightarrow> bool" where
  "kept k k' = (\<forall>v. map_option (\<lambda>x. (value_at x, result x)) (getVar k' v)
                   = map_option (\<lambda>x. (value_at x, result x)) (getVar k v))"

text \<open>
  A computation \<open>C\<close> with output \<open>o\<close>, committed once with the value 1 and running again
  after a new cause; \<open>D\<close> consumes \<open>o\<close>; an observer watches \<open>o\<close> and \<open>p\<close>.
\<close>

definition observerSeven :: observer where
  "observerSeven = Observer 7 (\<lambda>r. None)"

definition runningC :: kernel where
  "runningC = newKernel\<lparr>logicalClock := 5,
     variables := [(''o'', \<lparr>var_id = ''o'', result = Success (JNum 1), value_at = 3, cause_at = 5,
                            dirty = True, producer = Some ''C'', dependents = [''D''],
                            observers = [observerSeven], observeCount = 2\<rparr>),
                   (''p'', \<lparr>var_id = ''p'', result = Success (JNum 4), value_at = 3, cause_at = 5,
                            dirty = True, producer = Some ''D'', dependents = [],
                            observers = [observerSeven], observeCount = 1\<rparr>)],
     computations := [(''C'', \<lparr>comp_id = ''C'', staticInputs = [], runtimeInputs = [],
        outputs = [''o''], body = 0, input_version = 0,
        runningTask = Some \<lparr>taskId = 2, task_cause_at = 5, aborted = False\<rparr>,
        abortingTasks = [], scheduler = True, c_dirty = True, c_observeCount = 2,
        c_dirtyInputCount = 0, c_cause_at = 5, problem = None\<rparr>),
       (''D'', \<lparr>comp_id = ''D'', staticInputs = [''o''], runtimeInputs = [''o''],
        outputs = [''p''], body = 1, input_version = 3, runningTask = None,
        abortingTasks = [], scheduler = True, c_dirty = True, c_observeCount = 1,
        c_dirtyInputCount = 1, c_cause_at = 5, problem = None\<rparr>)],
     taskIdCounter := 2\<rparr>"

definition cleaner :: "kernel \<Rightarrow> kernel \<Rightarrow> bool" where
  "cleaner k k' = (\<forall>v. case getVar k v of
       None \<Rightarrow> getVar k' v = None
     | Some x \<Rightarrow> (\<exists>x'. getVar k' v = Some x' \<and> observers x' = observers x
                    \<and> result x' = result x \<and> (dirty x' \<longrightarrow> dirty x)))"

text \<open>
  A source \<open>x\<close> and a computation \<open>Y\<close> reading it, observed and Ready.  In \<open>prunableY\<close> it
  ran when \<open>x\<close> had its present value (\<open>input_version = 2\<close>) and was then made dirty by an
  update of \<open>x\<close> to the same value; in \<open>neverRunY\<close> it has not run yet.
\<close>

definition compY :: "int \<Rightarrow> computation" where
  "compY iv = \<lparr>comp_id = ''Y'', staticInputs = [''x''], runtimeInputs = [''x''],
        outputs = [''y''], body = 0, input_version = iv, runningTask = None,
        abortingTasks = [], scheduler = True, c_dirty = True, c_observeCount = 1,
        c_dirtyInputCount = 0, c_cause_at = 3, problem = None\<rparr>"

definition kernelY :: "int \<Rightarrow> result \<Rightarrow> kernel" where
  "kernelY iv r = newKernel\<lparr>logicalClock := 3,
     variables := [(''x'', \<lparr>var_id = ''x'', result = Success (JNum 1), value_at = 2, cause_at = 3,
                            dirty = False, producer = None, dependents = [''Y''],
                            observers = [], observeCount = 1\<rparr>),
                   (''y'', \<lparr>var_id = ''y'', result = r, value_at = (if r = Uninitialized then 0 else 3),
                            cause_at = 3, dirty = True, producer = Some ''Y'', dependents = [],
                            observers = [observerSeven], observeCount = 1\<rparr>)],
     computations := [(''Y'', compY iv)],
     readyQueue := [''Y''], scheduleScheduled := True\<rparr>"

definition prunableY :: kernel where
  "prunableY = kernelY 2 (Success (JNum 2))"

definition neverRunY :: kernel where
  "neverRunY = kernelY 0 Uninitialized"

text \<open>A running computation \<open>E\<close> with the two outputs \<open>u\<close> and \<open>w\<close>.\<close>

definition compE :: computation where
  "compE = \<lparr>comp_id = ''E'', staticInputs = [], runtimeInputs = [],
        outputs = [''u'', ''w''], body = 0, input_version = 0,
        runningTask = Some \<lparr>taskId = 1, task_cause_at = 0, aborted = False\<rparr>,
        abortingTasks = [], scheduler = True, c_dirty = True, c_observeCount = 1,
        c_dirtyInputCount = 0, c_cause_at = 0, problem = None\<rparr>"

definition runningE :: kernel where
  "runningE = newKernel\<lparr>logicalClock := 5,
     variables := [(''u'', \<lparr>var_id = ''u'', result = Uninitialized, value_at = 0, cause_at = 0,
                            dirty = True, producer = Some ''E'', dependents = [],
                            observers = [observerSeven], observeCount = 1\<rparr>),
                   (''w'', \<lparr>var_id = ''w'', result = Uninitialized, value_at = 0, cause_at = 0,
                            dirty = True, producer = Some ''E'', dependents = [],
                            observers = [], observeCount = 0\<rparr>)],
     computations := [(''E'', compE)], taskIdCounter := 1\<rparr>"

text \<open>Measures and relations for the propagation proofs.\<close>

definition belowCause :: "int \<Rightarrow> kernel \<Rightarrow> nat" where
  "belowCause N k = length (filter (\<lambda>p. c_cause_at (snd p) < N) (computations k))
                  + length (filter (\<lambda>p. c_cause_at (snd p) < N) (problem_computations k))"

definition totalComps :: "kernel \<Rightarrow> nat" where
  "totalComps k = length (computations k) + length (problem_computations k)"

definition unproduced :: "string \<Rightarrow> kernel \<Rightarrow> bool" where
  "unproduced v k = (\<forall>c cp. getComp k c = Some cp \<longrightarrow> v \<notin> set (outputs cp))"

definition stable :: "string \<Rightarrow> int \<Rightarrow> kernel \<Rightarrow> kernel \<Rightarrow> bool" where
  "stable v N k k' = (logicalClock k' = logicalClock k \<and> options k' = options k
     \<and> profile outputs k' = profile outputs k
     \<and> belowCause N k' \<le> belowCause N k
     \<and> (unproduced v k \<longrightarrow> getVar k' v = getVar k v))"

definition fits :: "int \<Rightarrow> nat \<Rightarrow> kernel \<Rightarrow> bool" where
  "fits N depth k = (belowCause N k < depth \<and> \<not> assertInvariants (options k))"

text \<open>
  A computation \<open>P\<close> with output \<open>p\<close>, observed and running for the first time, and a
  computation \<open>B\<close> defined on \<open>p\<close> and on the undefined input \<open>m\<close>: \<open>B\<close> is quarantined, with
  the counters and the empty \<open>runtimeInputs\<close> of a new \<^verbatim>\<open>Computation\<close>, and
  \<^verbatim>\<open>_createProblemComputation\<close> has added it to the dependents of \<open>p\<close>.
\<close>

definition quarantinedDependent :: "bool \<Rightarrow> kernel" where
  "quarantinedDependent assertions = newKernel\<lparr>
     options := defaultOptions\<lparr>assertInvariants := assertions\<rparr>,
     variables := [(''p'', \<lparr>var_id = ''p'', result = Uninitialized, value_at = 0, cause_at = 0,
        dirty = True, producer = Some ''P'', dependents = [''B''],
        observers = [observerSeven], observeCount = 1\<rparr>)],
     computations := [(''P'', \<lparr>comp_id = ''P'', staticInputs = [], runtimeInputs = [],
        outputs = [''p''], body = 0, input_version = 0,
        runningTask = Some \<lparr>taskId = 1, task_cause_at = 0, aborted = False\<rparr>,
        abortingTasks = [], scheduler = True, c_dirty = True, c_observeCount = 1,
        c_dirtyInputCount = 0, c_cause_at = 0, problem = None\<rparr>)],
     problem_variables := [(''vB'', \<lparr>var_id = ''vB'',
        result = Fatal \<lparr>reason = MissingInput,
          details = \<lparr>d_computationId = ''B'', d_missingInputs = Some [''m''],
            d_cyclePath = None, d_definitionError = None, d_conflictsWith = None\<rparr>\<rparr>,
        value_at = 0, cause_at = 0, dirty = False, producer = Some ''B'', dependents = [],
        observers = [], observeCount = 0\<rparr>)],
     problem_computations := [(''B'', \<lparr>comp_id = ''B'', staticInputs = [''p'', ''m''],
        runtimeInputs = [], outputs = [''vB''], body = 1, input_version = 0, runningTask = None,
        abortingTasks = [], scheduler = False, c_dirty = False, c_observeCount = 0,
        c_dirtyInputCount = 0, c_cause_at = 0,
        problem = Some \<lparr>problemReason = ReasonMissingInput [''m''], missingInputs = Some [''m''],
          origDefinition = \<lparr>def_id = ''B'', def_inputs = [''p'', ''m''], def_outputs = [''vB''],
                             def_body = 1\<rparr>\<rparr>\<rparr>)],
     runningTasksCount := 1, taskIdCounter := 1\<rparr>"

text \<open>
  What \<^verbatim>\<open>notifyObservers\<close> hands out for a variable in a given kernel: one call for each
  observer, in order, with the variable's result.
\<close>

definition notifications :: "kernel \<Rightarrow> string \<Rightarrow> (string \<times> nat \<times> result) list" where
  "notifications k v =
     (case getVar k v of
        None \<Rightarrow> []
      | Some x \<Rightarrow> map (\<lambda>ob. (v, obs_id ob, result x)) (observers x))"


text \<open>
  Views for the proof that a dynamic access does not abort its own task: the fields of a
  computation and of a variable that upward propagation of \<open>observeCount\<close> leaves alone;
  when the stale branch of upward propagation starts a downward propagation; a set of
  variables closed under going upstream, none of them produced by \<open>c\<close> or by a computation
  for which that branch fires; the consumers of the outputs of the computations in \<open>T\<close> all
  lying in \<open>S\<close>; and what a downward propagation into \<open>S\<close> may change.
\<close>

definition cview :: "computation \<Rightarrow> computation" where
  "cview cp = cp\<lparr>c_observeCount := 0, runningTask := None, abortingTasks := []\<rparr>"








section \<open>Properties\<close>

lemmas store_defs = getVar_def putVar_def getComp_def putComp_def

subsection \<open>Reading a value\<close>

text \<open>
  C2.  \<^verbatim>\<open>getValue\<close> resolves with the value of a success result and throws the stored
  error of an error result.  For a fatal result it does not throw the structural error,
  wrapped or not: the branch left after success and error is taken to be the
  uninitialized one, so the caller gets the plain error "Variable vB is uninitialized and
  has no value." and the structural error is lost.  The private \<^verbatim>\<open>_getValue\<close> and the scope
  proxy do throw the structural error of a fatal result.
\<close>

theorem getValue_fatal_reported_as_uninitialized:
  "getValue quarantinedB ''vB''
     = Rejected (JsError ''Variable vB is uninitialized and has no value.'')
   \<and> getValue quarantinedB ''vB'' \<noteq> Rejected (ThrownStructural fatalVB)
   \<and> getValueExecutionFrom (Fatal fatalVB) = Rejected (ThrownStructural fatalVB)
   \<and> getValueFrom v (Success x) = Resolved x
   \<and> getValueFrom v (Error e) = Rejected e
   \<and> getValueFrom v Uninitialized
       = Rejected (JsError (''Variable '' @ v @ '' is uninitialized and has no value.''))"
  by (simp add: getValue_def getVariable_def getVar_def quarantinedB_def newKernel_def
        evaluate_def getValueFrom_def getValueExecutionFrom_def)

subsection \<open>Observers that throw\<close>

text \<open>
  C3.  A callback that throws during the immediate notification of \<^verbatim>\<open>observe\<close> is caught
  and logged.  The same callback throwing when the variable is next cleaned is not
  caught: \<^verbatim>\<open>updateSource\<close> on the observed source throws what the callback threw.
\<close>

theorem observer_throw_escapes_updateSource:
  "(case observe ''x'' throwingObserver sourceX of
      Returned k1 \<Rightarrow>
        errorLog k1 = [ObserverCallbackFailed (JStr ''boom'')]
        \<and> (\<exists>k2. updateSource ''x'' (JNum 2) k1 = Threw (ThrownValue (JStr ''boom'')) k2)
    | Threw e k1 \<Rightarrow> False)"
  by (simp add: observe_def propagateObserveCountUpward_def addObserver_def logError_def
        updateSource_def nextLogicalClock_def getVariable_def store_defs sourceX_def
        newKernel_def throwingObserver_def markDirty_def cleanVariable_def notifyObservers_def
        callObserver_def Let_def)

subsection \<open>The state is a function of three fields\<close>

text \<open>
  For a computation whose counters are in their declared range (both are integers
  \<open>\<ge> 0\<close>), the state is Idle iff it is not dirty or nobody observes it, Pending iff it is
  dirty, observed and has a dirty input, Ready iff it is dirty, observed and has no dirty
  input; the state depends on no other field: two computations that agree on dirty,
  observeCount and dirtyInputCount have the same state, whatever their running task,
  aborting tasks, cause_at or input_version are.  There is no state field to set: the
  state is the function \<open>state\<close> of the record.
\<close>

lemma state_in_range:
  assumes "0 \<le> c_observeCount c" and "0 \<le> c_dirtyInputCount c"
  shows "(state c = Idle \<longleftrightarrow> \<not> c_dirty c \<or> c_observeCount c = 0)
       \<and> (state c = Pending \<longleftrightarrow> c_dirty c \<and> c_observeCount c > 0 \<and> c_dirtyInputCount c > 0)
       \<and> (state c = Ready \<longleftrightarrow> c_dirty c \<and> c_observeCount c > 0 \<and> c_dirtyInputCount c = 0)
       \<and> state (c\<lparr>runningTask := t\<rparr>) = state c
       \<and> (\<forall>c'. c_dirty c' = c_dirty c \<and> c_observeCount c' = c_observeCount c
               \<and> c_dirtyInputCount c' = c_dirtyInputCount c \<longrightarrow> state c' = state c)"
  using assms by (auto simp: state_def)

lemma state_in_range_example:
  "(0::int) \<le> 1 \<and> (0::int) \<le> 0
   \<and> state \<lparr>comp_id = ''B'', staticInputs = [''a''], runtimeInputs = [''a''], outputs = [''b''],
          body = 0, input_version = 0,
          runningTask = Some \<lparr>taskId = 1, task_cause_at = 2, aborted = False\<rparr>,
          abortingTasks = [], scheduler = True,
          c_dirty = True, c_observeCount = 1, c_dirtyInputCount = 0, c_cause_at = 2,
          problem = None\<rparr> = Ready
   \<and> state \<lparr>comp_id = ''B'', staticInputs = [''a''], runtimeInputs = [''a''], outputs = [''b''],
          body = 0, input_version = 0, runningTask = None,
          abortingTasks = [], scheduler = True,
          c_dirty = True, c_observeCount = 1, c_dirtyInputCount = 0, c_cause_at = 2,
          problem = None\<rparr> = Ready"
  using state_in_range
    [of "\<lparr>comp_id = ''B'', staticInputs = [''a''], runtimeInputs = [''a''], outputs = [''b''],
          body = 0, input_version = 0,
          runningTask = Some \<lparr>taskId = 1, task_cause_at = 2, aborted = False\<rparr>,
          abortingTasks = [], scheduler = True,
          c_dirty = True, c_observeCount = 1, c_dirtyInputCount = 0, c_cause_at = 2,
          problem = None\<rparr>" None]
  by simp

lemma map_of_update_same [simp]: "map_of (AList.update c x al) c = Some x"
  by (simp add: update_conv')

lemma map_of_update_other [simp]: "c' \<noteq> c \<Longrightarrow> map_of (AList.update c x al) c' = map_of al c'"
  by (simp add: update_conv')

lemma getComp_putComp:
  "getComp (putComp c x k) c' = (if c' = c \<and> getComp k c \<noteq> None then Some x else getComp k c')"
  by (auto simp: getComp_def putComp_def split: option.splits)

lemma getVar_putComp [simp]: "getVar (putComp c x k) v = getVar k v"
  by (simp add: getVar_def putComp_def split: option.splits)

lemma getVar_putVar:
  "getVar (putVar v x k) v' = (if v' = v \<and> getVar k v \<noteq> None then Some x else getVar k v')"
  by (auto simp: getVar_def putVar_def split: option.splits)

lemma getComp_putVar [simp]: "getComp (putVar v x k) c = getComp k c"
  by (simp add: getComp_def putVar_def split: option.splits)

text \<open>part of the kernel that setters of a computation never touch\<close>


lemma frame_putComp [simp]: "frame (putComp c x k) = frame k"
  by (simp add: frame_def putComp_def)

lemma frame_addToReadyQueue [simp]: "frame (addToReadyQueue c k) = frame k"
  by (simp add: frame_def addToReadyQueue_def split: option.splits)

lemma frame_checkScheduleNeeded [simp]: "frame (checkScheduleNeeded c s k) = frame k"
  by (simp add: checkScheduleNeeded_def split: option.splits)

lemma frame_abortTask [simp]: "frame (abortTask c k) = frame k"
  by (simp add: abortTask_def Let_def split: option.splits)

lemma frame_checkAbortNeeded [simp]: "frame (checkAbortNeeded c s s' k) = frame k"
  by (simp add: checkAbortNeeded_def split: option.splits)

lemma frame_onStateChange [simp]: "frame (onStateChange c s k) = frame k"
  by (simp add: onStateChange_def Let_def split: option.splits)

lemma frame_set_dirty [simp]: "frame (set_dirty c v k) = frame k"
  by (simp add: set_dirty_def split: option.splits)

lemma frame_set_observeCount [simp]: "frame (set_observeCount c v k) = frame k"
  by (simp add: set_observeCount_def split: option.splits)

lemma frame_set_dirtyInputCount [simp]: "frame (set_dirtyInputCount c v k) = frame k"
  by (simp add: set_dirtyInputCount_def split: option.splits)

lemma frame_checkAbortOnCauseAtChange [simp]: "frame (checkAbortOnCauseAtChange c a b k) = frame k"
  by (simp add: checkAbortOnCauseAtChange_def split: option.splits)

lemma frame_set_cause_at [simp]: "frame (set_cause_at c v k) = frame k"
  by (simp add: set_cause_at_def Let_def split: option.splits)


subsection \<open>loops\<close>

lemma forEach_inv:
  assumes "P k" and "\<And>x k. x \<in> set xs \<Longrightarrow> P k \<Longrightarrow> P (kernel_of (f x k))"
  shows "P (kernel_of (forEach xs f k))"
  using assms
proof (induction xs arbitrary: k)
  case Nil
  then show ?case by simp
next
  case (Cons x xs)
  have step: "P (kernel_of (f x k))" by (rule Cons.prems(2)) (simp_all add: Cons.prems(1))
  show ?case
  proof (cases "f x k")
    case (Returned k')
    with step have pk: "P k'" by simp
    have "P (kernel_of (forEach xs f k'))"
    proof (rule Cons.IH [OF pk])
      fix y k2 assume "y \<in> set xs" and "P k2"
      then show "P (kernel_of (f y k2))" by (intro Cons.prems(2)) simp_all
    qed
    with Returned show ?thesis by simp
  next
    case (Threw e k')
    with step show ?thesis by simp
  qed
qed

lemma andThen_inv:
  assumes "P (kernel_of out)" and "\<And>k. P k \<Longrightarrow> P (kernel_of (f k))"
  shows "P (kernel_of (andThen out f))"
proof (cases out)
  case (Returned k)
  with assms(1) have "P k" by simp
  then have "P (kernel_of (f k))" by (rule assms(2))
  with Returned show ?thesis by simp
next
  case (Threw e k)
  with assms(1) show ?thesis by simp
qed

lemma forEach_returns:
  assumes "P k" and "\<And>x k. x \<in> set xs \<Longrightarrow> P k \<Longrightarrow> \<exists>k'. f x k = Returned k' \<and> P k'"
  shows "\<exists>k'. forEach xs f k = Returned k' \<and> P k'"
  using assms
proof (induction xs arbitrary: k)
  case Nil
  then show ?case by simp
next
  case (Cons x xs)
  have "\<exists>k'. f x k = Returned k' \<and> P k'"
    by (rule Cons.prems(2)) (simp_all add: Cons.prems(1))
  then obtain k1 where k1: "f x k = Returned k1" "P k1" by blast
  have "\<exists>k'. forEach xs f k1 = Returned k' \<and> P k'"
  proof (rule Cons.IH [OF k1(2)])
    fix y k2 assume "y \<in> set xs" and "P k2"
    then show "\<exists>k'. f y k2 = Returned k' \<and> P k'" by (intro Cons.prems(2)) simp_all
  qed
  with k1 show ?case by simp
qed

subsection \<open>profiles of the computation tables\<close>


lemma map_update_same_image:
  "map_of al c = Some y \<Longrightarrow> f x = f y \<Longrightarrow>
   map (\<lambda>p. (fst p, f (snd p))) (AList.update c x al) = map (\<lambda>p. (fst p, f (snd p))) al"
  by (induction al) auto

lemma profile_putComp:
  "getComp k c = Some cp \<Longrightarrow> f x = f cp \<Longrightarrow> profile f (putComp c x k) = profile f k"
  by (auto simp: profile_def putComp_def getComp_def map_update_same_image split: option.splits)

lemma map_of_image: "map_of (map (\<lambda>p. (fst p, f (snd p))) al) c = map_option f (map_of al c)"
  by (induction al) auto

lemma getComp_profile:
  assumes a: "profile f k' = profile f k"
  shows "map_option f (getComp k' c) = map_option f (getComp k c)"
proof -
  have e1: "map (\<lambda>p. (fst p, f (snd p))) (computations k')
          = map (\<lambda>p. (fst p, f (snd p))) (computations k)"
    using a by (simp add: profile_def)
  have e2: "map (\<lambda>p. (fst p, f (snd p))) (problem_computations k')
          = map (\<lambda>p. (fst p, f (snd p))) (problem_computations k)"
    using a by (simp add: profile_def)
  have 1: "map_option f (map_of (computations k') c) = map_option f (map_of (computations k) c)"
    using arg_cong [OF e1, of "\<lambda>al. map_of al c"] by (simp only: map_of_image)
  have 2: "map_option f (map_of (problem_computations k') c)
         = map_option f (map_of (problem_computations k) c)"
    using arg_cong [OF e2, of "\<lambda>al. map_of al c"] by (simp only: map_of_image)
  show ?thesis
  proof (cases "map_of (computations k) c")
    case None
    with 1 have "map_of (computations k') c = None" by simp
    with None 2 show ?thesis by (simp add: getComp_def)
  next
    case (Some y)
    with 1 obtain y' where "map_of (computations k') c = Some y'" "f y' = f y" by auto
    with Some show ?thesis by (simp add: getComp_def)
  qed
qed

lemma getComp_profile_Some:
  "profile f k' = profile f k \<Longrightarrow> getComp k c = Some cp \<Longrightarrow> \<exists>cp'. getComp k' c = Some cp' \<and> f cp' = f cp"
  using getComp_profile [of f k' k c] by (cases "getComp k' c") simp_all


lemma profile_queue [simp]:
  "profile f (k\<lparr>readyQueue := q, scheduleScheduled := b\<rparr>) = profile f k"
  by (simp add: profile_def)

lemma profile_addToReadyQueue [simp]: "profile f (addToReadyQueue c k) = profile f k"
  by (simp add: addToReadyQueue_def split: option.splits)

lemma profile_checkScheduleNeeded [simp]: "profile f (checkScheduleNeeded c s k) = profile f k"
  by (simp add: checkScheduleNeeded_def split: option.splits)

lemma profile_abortTask: "sched_blind f \<Longrightarrow> profile f (abortTask c k) = profile f k"
  by (auto simp: abortTask_def Let_def sched_blind_def profile_putComp split: option.splits)

lemma profile_checkAbortNeeded: "sched_blind f \<Longrightarrow> profile f (checkAbortNeeded c s s' k) = profile f k"
  by (simp add: checkAbortNeeded_def profile_abortTask split: option.splits)

lemma profile_onStateChange: "sched_blind f \<Longrightarrow> profile f (onStateChange c s k) = profile f k"
  by (simp add: onStateChange_def Let_def profile_checkAbortNeeded split: option.splits)

lemma profile_set_dirty:
  "sched_blind f \<Longrightarrow> (\<And>cp. f (cp\<lparr>c_dirty := v\<rparr>) = f cp) \<Longrightarrow> profile f (set_dirty c v k) = profile f k"
  by (simp add: set_dirty_def profile_onStateChange profile_putComp split: option.splits)


lemma profile_set_dirtyInputCount:
  "sched_blind f \<Longrightarrow> (\<And>cp. f (cp\<lparr>c_dirtyInputCount := v\<rparr>) = f cp) \<Longrightarrow> profile f (set_dirtyInputCount c v k) = profile f k"
  by (simp add: set_dirtyInputCount_def profile_onStateChange profile_putComp split: option.splits)

lemma profile_checkAbortOnCauseAtChange:
  "sched_blind f \<Longrightarrow> profile f (checkAbortOnCauseAtChange c a b k) = profile f k"
  by (simp add: checkAbortOnCauseAtChange_def profile_abortTask split: option.splits)



subsection \<open>fields that do not matter to the store\<close>

lemma getComp_fields [simp]:
  "getComp (k\<lparr>delivered := d\<rparr>) = getComp k"
  "getComp (k\<lparr>errorLog := l\<rparr>) = getComp k"
  "getComp (k\<lparr>logicalClock := t\<rparr>) = getComp k"
  "getComp (k\<lparr>taskIdCounter := n\<rparr>) = getComp k"
  "getComp (k\<lparr>readyQueue := q\<rparr>) = getComp k"
  "getComp (k\<lparr>scheduleScheduled := b\<rparr>) = getComp k"
  by (simp_all add: getComp_def fun_eq_iff split: option.splits)

lemma getVar_fields [simp]:
  "getVar (k\<lparr>delivered := d\<rparr>) = getVar k"
  "getVar (k\<lparr>errorLog := l\<rparr>) = getVar k"
  "getVar (k\<lparr>logicalClock := t\<rparr>) = getVar k"
  "getVar (k\<lparr>taskIdCounter := n\<rparr>) = getVar k"
  "getVar (k\<lparr>readyQueue := q\<rparr>) = getVar k"
  "getVar (k\<lparr>scheduleScheduled := b\<rparr>) = getVar k"
  by (simp_all add: getVar_def fun_eq_iff split: option.splits)

subsection \<open>what cleaning a variable leaves alone\<close>


lemma vframe_frame: "frame k' = frame k \<Longrightarrow> vframe k' = vframe k"
  by (simp add: frame_def vframe_def)

lemma getVar_vframe: "vframe k' = vframe k \<Longrightarrow> getVar k' = getVar k"
  by (simp add: vframe_def getVar_def fun_eq_iff split: option.splits)

lemma vframe_callObserver: "vframe (kernel_of (callObserver v ob k)) = vframe k"
  by (simp add: callObserver_def vframe_def Let_def split: option.splits)

lemma vframe_notifyObservers: "vframe (kernel_of (notifyObservers v k)) = vframe k"
proof (cases "getVar k v")
  case None
  then show ?thesis by (simp add: notifyObservers_def)
next
  case (Some x)
  have "vframe (kernel_of (forEach (observers x) (callObserver v) k)) = vframe k"
    by (rule forEach_inv [where P = "\<lambda>k'. vframe k' = vframe k"]) (simp_all add: vframe_callObserver)
  with Some show ?thesis by (simp add: notifyObservers_def)
qed

lemma vframe_assertDirtyInputCount: "vframe (kernel_of (assertDirtyInputCount c k)) = vframe k"
  by (simp add: assertDirtyInputCount_def vframe_def logError_def Let_def split: option.splits)

lemma vframe_set_dirtyInputCount [simp]: "vframe (set_dirtyInputCount c v k) = vframe k"
  by (rule vframe_frame) simp

lemma vframe_decrementDirtyInputCount: "vframe (kernel_of (decrementDirtyInputCount c v k)) = vframe k"
  by (simp add: decrementDirtyInputCount_def vframe_assertDirtyInputCount split: option.splits)

lemma vframe_cleanVariable: "vframe (kernel_of (cleanVariable v k)) = vframe k"
  unfolding cleanVariable_def
proof (rule andThen_inv [where P = "\<lambda>k'. vframe k' = vframe k"])
  show "vframe (kernel_of (notifyObservers v k)) = vframe k" by (rule vframe_notifyObservers)
next
  fix k1 assume a: "vframe k1 = vframe k"
  show "vframe (kernel_of (case getVar k1 v of None \<Rightarrow> Returned k1
          | Some x \<Rightarrow> forEach (dependents x)
              (\<lambda>c k2. case (getComp k2 c, getVar k2 v) of
                        (Some cp, Some x2) \<Rightarrow>
                          if isInputOfComputation x2 cp then decrementDirtyInputCount c v k2
                          else Returned k2
                      | _ \<Rightarrow> Returned k2) k1)) = vframe k"
  proof (cases "getVar k1 v")
    case None
    with a show ?thesis by simp
  next
    case (Some x)
    have "vframe (kernel_of (forEach (dependents x)
              (\<lambda>c k2. case (getComp k2 c, getVar k2 v) of
                        (Some cp, Some x2) \<Rightarrow>
                          if isInputOfComputation x2 cp then decrementDirtyInputCount c v k2
                          else Returned k2
                      | _ \<Rightarrow> Returned k2) k1)) = vframe k"
      by (rule forEach_inv [where P = "\<lambda>k'. vframe k' = vframe k"])
         (auto simp: a vframe_decrementDirtyInputCount split: option.splits)
    with Some show ?thesis by simp
  qed
qed

subsection \<open>dirtyInputCount under cleaning\<close>

lemma sched_blind_dic [simp]: "sched_blind c_dirtyInputCount"
  by (simp add: sched_blind_def)

lemma dic_set_dirtyInputCount:
  "map_option c_dirtyInputCount (getComp (set_dirtyInputCount c v k) d)
   = (if d = c \<and> getComp k c \<noteq> None then Some v else map_option c_dirtyInputCount (getComp k d))"
proof (cases "getComp k c")
  case None
  then show ?thesis by (simp add: set_dirtyInputCount_def)
next
  case (Some cp)
  show ?thesis
  proof (cases "c_dirtyInputCount cp = v")
    case True
    with Some show ?thesis by (auto simp: set_dirtyInputCount_def)
  next
    case False
    have "map_option c_dirtyInputCount (getComp (set_dirtyInputCount c v k) d)
        = map_option c_dirtyInputCount (getComp (putComp c (cp\<lparr>c_dirtyInputCount := v\<rparr>) k) d)"
      using Some False
      by (simp add: set_dirtyInputCount_def getComp_profile [OF profile_onStateChange])
    with Some show ?thesis by (simp add: getComp_putComp)
  qed
qed


lemma dic_le_refl [simp]: "dic_le k k"
  by (simp add: dic_le_def)

lemma dic_le_trans:
  assumes "dic_le k k1" and "dic_le k1 k2"
  shows "dic_le k k2"
  unfolding dic_le_def
proof (intro allI impI)
  fix d cd assume "getComp k d = Some cd"
  with assms(1) obtain c1 where c1: "getComp k1 d = Some c1" "c_dirtyInputCount c1 \<le> c_dirtyInputCount cd"
    unfolding dic_le_def by blast
  with assms(2) obtain c2 where "getComp k2 d = Some c2" "c_dirtyInputCount c2 \<le> c_dirtyInputCount c1"
    unfolding dic_le_def by blast
  with c1 show "\<exists>cd'. getComp k2 d = Some cd' \<and> c_dirtyInputCount cd' \<le> c_dirtyInputCount cd"
    by auto
qed

lemma dic_le_same_comps: "getComp k' = getComp k \<Longrightarrow> dic_le k k'"
  by (simp add: dic_le_def)

lemma dic_le_set_dirtyInputCount:
  assumes "getComp k c = Some cp" and "v \<le> c_dirtyInputCount cp"
  shows "dic_le k (set_dirtyInputCount c v k)"
  unfolding dic_le_def
proof (intro allI impI)
  fix d cd assume d: "getComp k d = Some cd"
  have m: "map_option c_dirtyInputCount (getComp (set_dirtyInputCount c v k) d)
       = (if d = c then Some v else Some (c_dirtyInputCount cd))"
    using d assms by (simp add: dic_set_dirtyInputCount)
  then obtain cd' where cd': "getComp (set_dirtyInputCount c v k) d = Some cd'"
    by (cases "getComp (set_dirtyInputCount c v k) d") (auto split: if_splits)
  with m have "c_dirtyInputCount cd' = (if d = c then v else c_dirtyInputCount cd)"
    by (auto split: if_splits)
  with cd' d assms show "\<exists>cd'. getComp (set_dirtyInputCount c v k) d = Some cd'
      \<and> c_dirtyInputCount cd' \<le> c_dirtyInputCount cd"
    by auto
qed

lemma getComp_callObserver [simp]: "getComp (kernel_of (callObserver v ob k)) = getComp k"
  by (simp add: callObserver_def Let_def split: option.splits)

lemma getComp_notifyObservers: "getComp (kernel_of (notifyObservers v k)) = getComp k"
proof (cases "getVar k v")
  case None
  then show ?thesis by (simp add: notifyObservers_def)
next
  case (Some x)
  have "getComp (kernel_of (forEach (observers x) (callObserver v) k)) = getComp k"
    by (rule forEach_inv [where P = "\<lambda>k'. getComp k' = getComp k"]) simp_all
  with Some show ?thesis by (simp add: notifyObservers_def)
qed

lemma getComp_assertDirtyInputCount [simp]:
  "getComp (kernel_of (assertDirtyInputCount c k)) = getComp k"
  by (simp add: assertDirtyInputCount_def logError_def Let_def split: option.splits)

lemma dic_le_decrementDirtyInputCount: "dic_le k (kernel_of (decrementDirtyInputCount c v k))"
proof (cases "getComp k c")
  case None
  then show ?thesis by (simp add: decrementDirtyInputCount_def)
next
  case (Some cp)
  show ?thesis
  proof (cases "getVar k v")
    case None
    with Some show ?thesis by (simp add: decrementDirtyInputCount_def)
  next
    case (Some x)
    have "dic_le k (set_dirtyInputCount c (c_dirtyInputCount cp - 1) k)"
      using \<open>getComp k c = Some cp\<close> by (rule dic_le_set_dirtyInputCount) simp
    then have "dic_le k (kernel_of (assertDirtyInputCount c
                 (set_dirtyInputCount c (c_dirtyInputCount cp - 1) k)))"
      by (simp add: dic_le_def)
    with Some \<open>getComp k c = Some cp\<close> show ?thesis
      by (simp add: decrementDirtyInputCount_def)
  qed
qed

lemma dic_le_cleanVariable: "dic_le k (kernel_of (cleanVariable v k))"
  unfolding cleanVariable_def
proof (rule andThen_inv [where P = "dic_le k"])
  show "dic_le k (kernel_of (notifyObservers v k))"
    by (simp add: dic_le_same_comps getComp_notifyObservers)
next
  fix k1 assume a: "dic_le k k1"
  have step: "\<And>c k2. dic_le k k2 \<Longrightarrow> dic_le k (kernel_of (case (getComp k2 c, getVar k2 v) of
                        (Some cp, Some x2) \<Rightarrow>
                          if isInputOfComputation x2 cp then decrementDirtyInputCount c v k2
                          else Returned k2
                      | _ \<Rightarrow> Returned k2))"
  proof -
    fix c k2 assume b: "dic_le k k2"
    have "dic_le k (kernel_of (decrementDirtyInputCount c v k2))"
      using b dic_le_decrementDirtyInputCount by (rule dic_le_trans)
    with b show "dic_le k (kernel_of (case (getComp k2 c, getVar k2 v) of
                        (Some cp, Some x2) \<Rightarrow>
                          if isInputOfComputation x2 cp then decrementDirtyInputCount c v k2
                          else Returned k2
                      | _ \<Rightarrow> Returned k2))"
      by (simp split: option.splits)
  qed
  show "dic_le k (kernel_of (case getVar k1 v of None \<Rightarrow> Returned k1
          | Some x \<Rightarrow> forEach (dependents x)
              (\<lambda>c k2. case (getComp k2 c, getVar k2 v) of
                        (Some cp, Some x2) \<Rightarrow>
                          if isInputOfComputation x2 cp then decrementDirtyInputCount c v k2
                          else Returned k2
                      | _ \<Rightarrow> Returned k2) k1))"
  proof (cases "getVar k1 v")
    case None
    with a show ?thesis by simp
  next
    case (Some x)
    have "dic_le k (kernel_of (forEach (dependents x)
              (\<lambda>c k2. case (getComp k2 c, getVar k2 v) of
                        (Some cp, Some x2) \<Rightarrow>
                          if isInputOfComputation x2 cp then decrementDirtyInputCount c v k2
                          else Returned k2
                      | _ \<Rightarrow> Returned k2) k1))"
    proof (rule forEach_inv [where P = "dic_le k"])
      show "dic_le k k1" by (rule a)
    next
      fix c k2 assume "dic_le k k2"
      then show "dic_le k (kernel_of (case (getComp k2 c, getVar k2 v) of
                        (Some cp, Some x2) \<Rightarrow>
                          if isInputOfComputation x2 cp then decrementDirtyInputCount c v k2
                          else Returned k2
                      | _ \<Rightarrow> Returned k2))" by (rule step)
    qed
    with Some show ?thesis by simp
  qed
qed




lemmas example_defs = runningC_def newKernel_def defaultOptions_def observerSeven_def

lemmas clean_defs = cleanVariable_def notifyObservers_def callObserver_def
  decrementDirtyInputCount_def assertDirtyInputCount_def isInputOfComputation_def

lemmas setter_defs = set_dirty_def set_observeCount_def set_dirtyInputCount_def set_cause_at_def
  onStateChange_def checkAbortNeeded_def checkScheduleNeeded_def abortTask_def
  addToReadyQueue_def checkAbortOnCauseAtChange_def state_def

subsection \<open>Output pruning\<close>

text \<open>
  C1 as stated fails: \<open>C\<close> returns 1 for its output \<open>o\<close>, whose committed value is 1, and
  the observer of \<open>o\<close> is called all the same, with the unchanged result.
\<close>

theorem output_pruning_notifies_counterexample: "\<not> outputValueChanged runningC [(''o'', JNum 1)] ''o''
  \<and> delivered runningC = []
  \<and> delivered (kernel_of (updateOutputs ''C'' [(''o'', JNum 1)] runningC))
      = [(''o'', 7, Success (JNum 1))]"
  by (simp add: updateOutputs_def outputValueChanged_def oldValueOf_def outputOf_def
      example_defs store_defs clean_defs setter_defs Let_def)


lemma kept_same: "getVar k' = getVar k \<Longrightarrow> kept k k'"
  by (simp add: kept_def)

lemma kept_trans: "kept k k1 \<Longrightarrow> kept k1 k2 \<Longrightarrow> kept k k2"
  by (simp add: kept_def)

lemma kept_putVar:
  "getVar k v = Some x \<Longrightarrow> value_at x' = value_at x \<Longrightarrow> result x' = result x \<Longrightarrow>
   kept k (putVar v x' k)"
  by (simp add: kept_def getVar_putVar)

lemma kept_cleanVariable: "kept k (kernel_of (cleanVariable v k))"
  by (rule kept_same) (rule getVar_vframe [OF vframe_cleanVariable])

lemma clock_cleanVariable: "logicalClock (kernel_of (cleanVariable v k)) = logicalClock k"
  using vframe_cleanVariable [of v k] by (simp add: vframe_def)

lemma clock_putVar [simp]: "logicalClock (putVar v x k) = logicalClock k"
  by (simp add: putVar_def)

lemma dic_le_putVar: "dic_le k (putVar v x k)"
  by (rule dic_le_same_comps) (simp add: fun_eq_iff)

text \<open>
  The state after a commit that changes no value.  When the body returns, for every output,
  a value deep-equal to the committed one, the commit leaves the logical clock, and the
  \<open>value_at\<close> and result of every variable, as they were, and no computation's
  \<open>dirtyInputCount\<close> is larger afterwards, whether the commit returns or throws.
\<close>

lemma output_pruning_state:
  assumes c: "getComp k c = Some cp"
    and same: "\<forall>out \<in> set (outputs cp). \<not> outputValueChanged k newOutputs out"
  shows "logicalClock (kernel_of (updateOutputs c newOutputs k)) = logicalClock k
    \<and> (\<forall>v x. getVar k v = Some x \<longrightarrow>
          (\<exists>x'. getVar (kernel_of (updateOutputs c newOutputs k)) v = Some x'
                \<and> value_at x' = value_at x \<and> result x' = result x))
    \<and> (\<forall>d cd. getComp k d = Some cd \<longrightarrow>
          (\<exists>cd'. getComp (kernel_of (updateOutputs c newOutputs k)) d = Some cd'
                 \<and> c_dirtyInputCount cd' \<le> c_dirtyInputCount cd))"
proof -
  let ?step = "\<lambda>out k2.
                  case (getVar k2 out, getComp k2 c) of
                    (Some x, Some cp2) \<Rightarrow>
                      let valueChanged = \<not> deepEqual (oldValueOf x) (outputOf newOutputs out);
                          x1 = (if valueChanged
                                then x\<lparr>result := Success (outputOf newOutputs out),
                                       value_at := 0\<rparr>
                                else x);
                          x2 = x1\<lparr>cause_at := c_cause_at cp2, dirty := False\<rparr>
                      in cleanVariable out (putVar out x2 k2)
                  | _ \<Rightarrow> Returned k2"
  let ?P = "\<lambda>k2. logicalClock k2 = logicalClock k \<and> kept k k2 \<and> dic_le k k2"
  have noChange: "\<not> list_ex (outputValueChanged k newOutputs) (outputs cp)"
    using same by (simp add: list_ex_iff)
  have upd: "updateOutputs c newOutputs k = forEach (outputs cp) ?step k"
    using c noChange by (simp add: updateOutputs_def)
  have "?P (kernel_of (forEach (outputs cp) ?step k))"
  proof (rule forEach_inv [where P = ?P])
    show "?P k" by (simp add: kept_def)
  next
    fix out k2 assume out: "out \<in> set (outputs cp)" and P: "?P k2"
    show "?P (kernel_of (?step out k2))"
    proof (cases "getVar k2 out")
      case None
      with P show ?thesis by simp
    next
      case (Some x)
      show ?thesis
      proof (cases "getComp k2 c")
        case None
        with Some P show ?thesis by simp
      next
        case (Some cp2)
        from P have "kept k k2" by simp
        then have "map_option (\<lambda>x. (value_at x, result x)) (getVar k2 out)
             = map_option (\<lambda>x. (value_at x, result x)) (getVar k out)"
          unfolding kept_def by (rule spec)
        then have "map_option (\<lambda>x. (value_at x, result x)) (getVar k out)
             = Some (value_at x, result x)"
          using \<open>getVar k2 out = Some x\<close> by simp
        then obtain x0 where x0: "getVar k out = Some x0" "result x0 = result x"
          by (cases "getVar k out") auto
        from same out have "\<not> outputValueChanged k newOutputs out" by blast
        with x0 have "deepEqual (oldValueOf x0) (outputOf newOutputs out)"
          by (simp add: outputValueChanged_def)
        moreover from x0 have "oldValueOf x0 = oldValueOf x" by (simp add: oldValueOf_def)
        ultimately have eq: "deepEqual (oldValueOf x) (outputOf newOutputs out)" by simp
        let ?x2 = "x\<lparr>cause_at := c_cause_at cp2, dirty := False\<rparr>"
        let ?k3 = "putVar out ?x2 k2"
        have st: "?step out k2 = cleanVariable out ?k3"
          using \<open>getVar k2 out = Some x\<close> Some eq by simp
        have k3: "?P ?k3"
        proof (intro conjI)
          show "logicalClock ?k3 = logicalClock k" using P by simp
          have "kept k2 ?k3" using \<open>getVar k2 out = Some x\<close> by (rule kept_putVar) simp_all
          with P show "kept k ?k3" by (blast intro: kept_trans)
          show "dic_le k ?k3" using P dic_le_putVar by (blast intro: dic_le_trans)
        qed
        have "?P (kernel_of (cleanVariable out ?k3))"
        proof (intro conjI)
          show "logicalClock (kernel_of (cleanVariable out ?k3)) = logicalClock k"
            using k3 by (simp add: clock_cleanVariable)
          show "kept k (kernel_of (cleanVariable out ?k3))"
            using k3 kept_cleanVariable by (blast intro: kept_trans)
          show "dic_le k (kernel_of (cleanVariable out ?k3))"
            using k3 dic_le_cleanVariable by (blast intro: dic_le_trans)
        qed
        with st show ?thesis by simp
      qed
    qed
  qed
  with upd have P: "?P (kernel_of (updateOutputs c newOutputs k))" by simp
  show ?thesis
  proof (intro conjI allI impI)
    show "logicalClock (kernel_of (updateOutputs c newOutputs k)) = logicalClock k"
      using P by simp
  next
    fix v x assume "getVar k v = Some x"
    moreover from P have "kept k (kernel_of (updateOutputs c newOutputs k))" by simp
    then have "map_option (\<lambda>x. (value_at x, result x))
        (getVar (kernel_of (updateOutputs c newOutputs k)) v)
        = map_option (\<lambda>x. (value_at x, result x)) (getVar k v)"
      unfolding kept_def by (rule spec)
    ultimately have "map_option (\<lambda>x. (value_at x, result x))
        (getVar (kernel_of (updateOutputs c newOutputs k)) v) = Some (value_at x, result x)"
      by simp
    then show "\<exists>x'. getVar (kernel_of (updateOutputs c newOutputs k)) v = Some x'
                \<and> value_at x' = value_at x \<and> result x' = result x"
      by (cases "getVar (kernel_of (updateOutputs c newOutputs k)) v") auto
  next
    fix d cd assume "getComp k d = Some cd"
    with P show "\<exists>cd'. getComp (kernel_of (updateOutputs c newOutputs k)) d = Some cd'
                 \<and> c_dirtyInputCount cd' \<le> c_dirtyInputCount cd"
      by (simp add: dic_le_def)
  qed
qed

lemma output_pruning_state_example:
  "getComp runningC ''C'' \<noteq> None
   \<and> \<not> outputValueChanged runningC [(''o'', JNum 1)] ''o''
   \<and> logicalClock (kernel_of (updateOutputs ''C'' [(''o'', JNum 1)] runningC)) = 5
   \<and> (\<exists>x'. getVar (kernel_of (updateOutputs ''C'' [(''o'', JNum 1)] runningC)) ''o'' = Some x'
          \<and> value_at x' = 3 \<and> result x' = Success (JNum 1))
   \<and> (\<exists>cd'. getComp (kernel_of (updateOutputs ''C'' [(''o'', JNum 1)] runningC)) ''D'' = Some cd'
          \<and> c_dirtyInputCount cd' \<le> 1)"
proof -
  obtain cp where c: "getComp runningC ''C'' = Some cp" and o: "outputs cp = [''o'']"
    by (simp add: example_defs store_defs)
  have n: "\<not> outputValueChanged runningC [(''o'', JNum 1)] ''o''"
    by (simp add: outputValueChanged_def oldValueOf_def outputOf_def example_defs store_defs)
  then have same: "\<forall>out \<in> set (outputs cp).
      \<not> outputValueChanged runningC [(''o'', JNum 1)] out"
    using o by simp
  obtain x where x: "getVar runningC ''o'' = Some x" "value_at x = 3" "result x = Success (JNum 1)"
    by (simp add: example_defs store_defs)
  obtain cd where d: "getComp runningC ''D'' = Some cd" "c_dirtyInputCount cd = 1"
    by (simp add: example_defs store_defs)
  have clk: "logicalClock runningC = 5" by (simp add: example_defs)
  from output_pruning_state [OF c same] c n x d clk show ?thesis by fastforce
qed

subsection \<open>When cleaning returns\<close>

lemma options_vframe: "vframe k' = vframe k \<Longrightarrow> options k' = options k"
  by (simp add: vframe_def)

lemma clock_vframe: "vframe k' = vframe k \<Longrightarrow> logicalClock k' = logicalClock k"
  by (simp add: vframe_def)

lemma notifyObservers_returns:
  assumes v: "getVar k v = Some x"
    and quiet: "\<forall>ob \<in> set (observers x). obs_body ob (result x) = None"
  shows "\<exists>k'. notifyObservers v k = Returned k'"
proof -
  have "\<exists>k'. forEach (observers x) (callObserver v) k = Returned k' \<and> getVar k' v = Some x"
  proof (rule forEach_returns [where P = "\<lambda>k'. getVar k' v = Some x"])
    show "getVar k v = Some x" by (rule v)
  next
    fix ob k1 assume "ob \<in> set (observers x)" and "getVar k1 v = Some x"
    with quiet show "\<exists>k'. callObserver v ob k1 = Returned k' \<and> getVar k' v = Some x"
      by (simp add: callObserver_def Let_def)
  qed
  with v show ?thesis by (auto simp: notifyObservers_def)
qed

lemma options_set_dirtyInputCount [simp]: "options (set_dirtyInputCount c v k) = options k"
  using vframe_set_dirtyInputCount [of c v k] by (simp add: vframe_def)

lemma decrementDirtyInputCount_returns:
  "\<not> assertInvariants (options k) \<Longrightarrow> \<exists>k'. decrementDirtyInputCount c v k = Returned k'"
  by (simp add: decrementDirtyInputCount_def assertDirtyInputCount_def split: option.splits)

lemma decrementStep_returns:
  assumes o2: "\<not> assertInvariants (options k2)"
  shows "\<exists>k'. (case (getComp k2 c, getVar k2 v) of
                        (Some cp, Some x2) \<Rightarrow>
                          if isInputOfComputation x2 cp then decrementDirtyInputCount c v k2
                          else Returned k2
                      | _ \<Rightarrow> Returned k2) = Returned k' \<and> \<not> assertInvariants (options k')"
proof (cases "getComp k2 c")
  case None
  with o2 show ?thesis by simp
next
  case (Some cp)
  show ?thesis
  proof (cases "getVar k2 v")
    case None
    with Some o2 show ?thesis by simp
  next
    case (Some x2)
    show ?thesis
    proof (cases "isInputOfComputation x2 cp")
      case False
      with Some \<open>getComp k2 c = Some cp\<close> o2 show ?thesis by simp
    next
      case True
      from decrementDirtyInputCount_returns [OF o2, of c v] obtain k3
        where k3: "decrementDirtyInputCount c v k2 = Returned k3" by blast
      have "vframe (kernel_of (decrementDirtyInputCount c v k2)) = vframe k2"
        by (rule vframe_decrementDirtyInputCount)
      with k3 have "options k3 = options k2" by (simp add: vframe_def)
      with True Some \<open>getComp k2 c = Some cp\<close> o2 k3 show ?thesis by simp
    qed
  qed
qed

lemma cleanVariable_returns:
  assumes v: "getVar k v = Some x"
    and quiet: "\<forall>ob \<in> set (observers x). obs_body ob (result x) = None"
    and off: "\<not> assertInvariants (options k)"
  shows "\<exists>k'. cleanVariable v k = Returned k'"
proof -
  from notifyObservers_returns [OF v quiet] obtain k1 where k1: "notifyObservers v k = Returned k1"
    by (elim exE)
  have f1: "vframe k1 = vframe k" using vframe_notifyObservers [of v k] k1 by simp
  have v1: "getVar k1 v = Some x" using v getVar_vframe [OF f1] by simp
  have o1: "\<not> assertInvariants (options k1)" using off options_vframe [OF f1] by simp
  have "\<exists>k'. forEach (dependents x) (\<lambda>c k2. case (getComp k2 c, getVar k2 v) of
                        (Some cp, Some x2) \<Rightarrow>
                          if isInputOfComputation x2 cp then decrementDirtyInputCount c v k2
                          else Returned k2
                      | _ \<Rightarrow> Returned k2) k1 = Returned k' \<and> \<not> assertInvariants (options k')"
  proof (rule forEach_returns [where P = "\<lambda>k'. \<not> assertInvariants (options k')"])
    show "\<not> assertInvariants (options k1)" by (rule o1)
  next
    fix c and k2 :: kernel assume "\<not> assertInvariants (options k2)"
    then show "\<exists>k'. (case (getComp k2 c, getVar k2 v) of
                        (Some cp, Some x2) \<Rightarrow>
                          if isInputOfComputation x2 cp then decrementDirtyInputCount c v k2
                          else Returned k2
                      | _ \<Rightarrow> Returned k2) = Returned k' \<and> \<not> assertInvariants (options k')"
      by (rule decrementStep_returns)
  qed
  then obtain k' where k': "forEach (dependents x) (\<lambda>c k2. case (getComp k2 c, getVar k2 v) of
                        (Some cp, Some x2) \<Rightarrow>
                          if isInputOfComputation x2 cp then decrementDirtyInputCount c v k2
                          else Returned k2
                      | _ \<Rightarrow> Returned k2) k1 = Returned k'" by (elim exE conjE)
  have "cleanVariable v k = Returned k'"
    unfolding cleanVariable_def k1 andThen.simps v1 option.case k' ..
  then show ?thesis by (rule exI)
qed

subsection \<open>Committing an error\<close>

lemma getComp_dic_le: "dic_le k k' \<Longrightarrow> getComp k c \<noteq> None \<Longrightarrow> getComp k' c \<noteq> None"
  by (auto simp: dic_le_def)

lemma errorLoop:
  fixes c :: string and err :: thrown
  defines "step \<equiv> \<lambda>out k1.
                  case (getVar k1 out, getComp k1 c) of
                    (Some x, Some cp1) \<Rightarrow>
                      let (t, k2) = nextLogicalClock k1;
                          x1 = x\<lparr>result := Error err, value_at := t,
                                 cause_at := c_cause_at cp1, dirty := False\<rparr>
                      in cleanVariable out (putVar out x1 k2)
                  | _ \<Rightarrow> Returned k1"
  assumes "distinct outs"
    and "\<forall>out \<in> set outs. \<exists>x. getVar k out = Some x
            \<and> (\<forall>ob \<in> set (observers x). obs_body ob (Error err) = None)"
    and "\<not> assertInvariants (options k)"
    and "getComp k c \<noteq> None"
  shows "\<exists>k'. forEach outs step k = Returned k'
      \<and> logicalClock k' = logicalClock k + int (length outs)
      \<and> (\<forall>i < length outs. \<exists>x'. getVar k' (outs ! i) = Some x' \<and> result x' = Error err
             \<and> \<not> dirty x' \<and> value_at x' = logicalClock k + int i + 1)
      \<and> (\<forall>v. v \<notin> set outs \<longrightarrow> getVar k' v = getVar k v)"
  using assms(2-)
proof (induction outs arbitrary: k)
  case Nil
  then show ?case by simp
next
  case (Cons out outs)
  from Cons.prems obtain x where x: "getVar k out = Some x"
    and qx: "\<forall>ob \<in> set (observers x). obs_body ob (Error err) = None" by auto
  from Cons.prems obtain cp1 where cp1: "getComp k c = Some cp1" by auto
  let ?k2 = "k\<lparr>logicalClock := logicalClock k + 1\<rparr>"
  let ?x1 = "x\<lparr>result := Error err, value_at := logicalClock k + 1,
                 cause_at := c_cause_at cp1, dirty := False\<rparr>"
  let ?k3 = "putVar out ?x1 ?k2"
  have st: "step out k = cleanVariable out ?k3"
    using x cp1 by (simp add: step_def nextLogicalClock_def)
  have x3: "getVar ?k3 out = Some ?x1" using x by (simp add: getVar_putVar)
  have o3: "\<not> assertInvariants (options ?k3)"
    using Cons.prems(3) by (simp add: putVar_def)
  from cleanVariable_returns [OF x3 _ o3] qx obtain k4 where k4: "cleanVariable out ?k3 = Returned k4"
    by auto
  have f4: "vframe k4 = vframe ?k3" using vframe_cleanVariable [of out ?k3] k4 by simp
  have g4: "getVar k4 = getVar ?k3" using f4 by (rule getVar_vframe)
  have c4: "getComp k4 c \<noteq> None"
  proof -
    have "dic_le ?k3 k4" using dic_le_cleanVariable [of ?k3 out] k4 by simp
    moreover have "getComp ?k3 c \<noteq> None" using cp1 by simp
    ultimately show ?thesis by (rule getComp_dic_le)
  qed
  have clk4: "logicalClock k4 = logicalClock k + 1"
    using clock_vframe [OF f4] by simp
  have other: "\<And>v. v \<noteq> out \<Longrightarrow> getVar k4 v = getVar k v"
    using g4 by (simp add: getVar_putVar)
  have d: "distinct outs" and notin: "out \<notin> set outs" using Cons.prems(1) by auto
  have pres: "\<forall>o' \<in> set outs. \<exists>x. getVar k4 o' = Some x
            \<and> (\<forall>ob \<in> set (observers x). obs_body ob (Error err) = None)"
  proof
    fix o' assume o': "o' \<in> set outs"
    with notin have "o' \<noteq> out" by auto
    then have "getVar k4 o' = getVar k o'" by (rule other)
    with Cons.prems(2) o' show "\<exists>x. getVar k4 o' = Some x
            \<and> (\<forall>ob \<in> set (observers x). obs_body ob (Error err) = None)" by simp
  qed
  have o4: "\<not> assertInvariants (options k4)" using o3 options_vframe [OF f4] by simp
  from Cons.IH [OF d pres o4 c4] obtain k' where
    r: "forEach outs step k4 = Returned k'"
    and clk: "logicalClock k' = logicalClock k4 + int (length outs)"
    and idx: "\<forall>i < length outs. \<exists>x'. getVar k' (outs ! i) = Some x' \<and> result x' = Error err
             \<and> \<not> dirty x' \<and> value_at x' = logicalClock k4 + int i + 1"
    and oth: "\<forall>v. v \<notin> set outs \<longrightarrow> getVar k' v = getVar k4 v"
    by blast
  have r': "forEach (out # outs) step k = Returned k'" using st k4 r by simp
  have head: "getVar k' out = Some ?x1" using oth notin g4 x3 by simp
  have idx': "\<forall>i < length (out # outs). \<exists>x'. getVar k' ((out # outs) ! i) = Some x'
             \<and> result x' = Error err \<and> \<not> dirty x' \<and> value_at x' = logicalClock k + int i + 1"
  proof (intro allI impI)
    fix i assume i: "i < length (out # outs)"
    show "\<exists>x'. getVar k' ((out # outs) ! i) = Some x'
             \<and> result x' = Error err \<and> \<not> dirty x' \<and> value_at x' = logicalClock k + int i + 1"
    proof (cases i)
      case 0
      with head show ?thesis by simp
    next
      case (Suc j)
      with i have "j < length outs" by simp
      with idx clk4 Suc show ?thesis by auto
    qed
  qed
  have oth': "\<forall>v. v \<notin> set (out # outs) \<longrightarrow> getVar k' v = getVar k v"
    using oth other by auto
  from r' clk clk4 idx' oth' show ?case by auto
qed


lemma vframe_set_dirty [simp]: "vframe (set_dirty c v k) = vframe k"
  by (rule vframe_frame) simp

lemma vframe_set_input_version [simp]: "vframe (set_input_version c k) = vframe k"
  by (simp add: set_input_version_def vframe_def putComp_def split: option.splits)

lemma vframe_logError [simp]: "vframe (logError e k) = vframe k"
  by (simp add: logError_def vframe_def)

lemma getComp_logError [simp]: "getComp (logError e k) = getComp k"
  by (simp add: logError_def)

text \<open>
  The error commit when nothing throws.  When the body of a computation fails with an
  error that is not an abort, no observer of an output throws and the invariant assertions
  are off, every output gets the error result and becomes clean, and each output's
  \<open>value_at\<close> comes from a clock increment of its own: the \<open>i\<close>-th output gets
  \<open>clock + i + 1\<close>, so the outputs' \<open>value_at\<close> are pairwise distinct;
  \<^verbatim>\<open>handleExecutionError\<close> rethrows the error.
\<close>

lemma error_commit_quiet:
  assumes c: "getComp k c = Some cp"
    and nonAbort: "\<not> isAbortError err"
    and dist: "distinct (outputs cp)"
    and quiet: "\<forall>out \<in> set (outputs cp). \<exists>x. getVar k out = Some x
            \<and> (\<forall>ob \<in> set (observers x). obs_body ob (Error err) = None)"
    and off: "\<not> assertInvariants (options k)"
  shows "\<exists>k'. handleExecutionError c err tid k = Threw err k'
     \<and> logicalClock k' = logicalClock k + int (length (outputs cp))
     \<and> (\<forall>i < length (outputs cp). \<exists>x'. getVar k' (outputs cp ! i) = Some x'
            \<and> result x' = Error err \<and> \<not> dirty x' \<and> value_at x' = logicalClock k + int i + 1)
     \<and> (\<forall>i j x y. i < j \<and> j < length (outputs cp) \<and> getVar k' (outputs cp ! i) = Some x
            \<and> getVar k' (outputs cp ! j) = Some y \<longrightarrow> value_at x \<noteq> value_at y)"
proof -
  let ?k0 = "logError (ExecutionFailed tid c err) k"
  let ?k1 = "if logLevel (options ?k0) = LogError
             then logError (PropagatingError c err) ?k0 else ?k0"
  let ?step = "\<lambda>out k1.
                  case (getVar k1 out, getComp k1 c) of
                    (Some x, Some cp1) \<Rightarrow>
                      let (t, k2) = nextLogicalClock k1;
                          x1 = x\<lparr>result := Error err, value_at := t,
                                 cause_at := c_cause_at cp1, dirty := False\<rparr>
                      in cleanVariable out (putVar out x1 k2)
                  | _ \<Rightarrow> Returned k1"
  have f1: "vframe ?k1 = vframe k" by simp
  have g1: "getVar ?k1 = getVar k" using f1 by (rule getVar_vframe)
  have c1: "getComp ?k1 = getComp k" by simp
  have upd: "updateOutputsWithError c err ?k0 = forEach (outputs cp) ?step ?k1"
    using c by (simp add: updateOutputsWithError_def Let_def)
  have q1: "\<forall>out \<in> set (outputs cp). \<exists>x. getVar ?k1 out = Some x
            \<and> (\<forall>ob \<in> set (observers x). obs_body ob (Error err) = None)"
    using quiet unfolding g1 .
  have o1: "\<not> assertInvariants (options ?k1)" using off options_vframe [OF f1] by simp
  have e1: "getComp ?k1 c \<noteq> None" using c unfolding c1 by simp
  from errorLoop [OF dist q1 o1 e1] obtain k2 where
    r: "forEach (outputs cp) ?step ?k1 = Returned k2"
    and clk: "logicalClock k2 = logicalClock ?k1 + int (length (outputs cp))"
    and idx: "\<forall>i < length (outputs cp). \<exists>x'. getVar k2 (outputs cp ! i) = Some x'
            \<and> result x' = Error err \<and> \<not> dirty x' \<and> value_at x' = logicalClock ?k1 + int i + 1"
    by blast
  let ?k3 = "set_input_version c (set_dirty c False k2)"
  have f3: "vframe ?k3 = vframe k2" by simp
  have g3: "getVar ?k3 = getVar k2" using f3 by (rule getVar_vframe)
  have clk1: "logicalClock ?k1 = logicalClock k" using clock_vframe [OF f1] .
  have res: "handleExecutionError c err tid k = Threw err ?k3"
    using nonAbort upd r by (simp add: handleExecutionError_def)
  have clk3: "logicalClock ?k3 = logicalClock k + int (length (outputs cp))"
    using clock_vframe [OF f3] clk clk1 by simp
  have idx3: "\<forall>i < length (outputs cp). \<exists>x'. getVar ?k3 (outputs cp ! i) = Some x'
            \<and> result x' = Error err \<and> \<not> dirty x' \<and> value_at x' = logicalClock k + int i + 1"
    using idx unfolding g3 clk1 .
  have pair: "\<forall>i j x y. i < j \<and> j < length (outputs cp) \<and> getVar ?k3 (outputs cp ! i) = Some x
            \<and> getVar ?k3 (outputs cp ! j) = Some y \<longrightarrow> value_at x \<noteq> value_at y"
  proof (intro allI impI)
    fix i j x y
    assume a: "i < j \<and> j < length (outputs cp) \<and> getVar ?k3 (outputs cp ! i) = Some x
            \<and> getVar ?k3 (outputs cp ! j) = Some y"
    then have "i < length (outputs cp)" by simp
    with idx3 a have "value_at x = logicalClock k + int i + 1" by fastforce
    moreover from idx3 a have "value_at y = logicalClock k + int j + 1" by fastforce
    ultimately show "value_at x \<noteq> value_at y" using a by simp
  qed
  from res clk3 idx3 pair show ?thesis by blast
qed


subsection \<open>Input pruning\<close>

lemma getMaxInputVersionFrom_le:
  "m \<le> b \<Longrightarrow> \<forall>i \<in> set inputs. \<forall>x. getVar k i = Some x \<longrightarrow> value_at x \<le> b \<Longrightarrow>
   getMaxInputVersionFrom k m inputs \<le> b"
proof (induction inputs arbitrary: m)
  case Nil
  then show ?case by simp
next
  case (Cons i inputs)
  have "(case getVar k i of None \<Rightarrow> m | Some x \<Rightarrow> max m (value_at x)) \<le> b"
    using Cons.prems by (cases "getVar k i") auto
  then show ?case using Cons.IH Cons.prems by simp
qed

lemma sched_blind_dirty [simp]: "sched_blind c_dirty"
  by (simp add: sched_blind_def)

lemma dirty_set_dirty:
  assumes "getComp k c = Some cp"
  shows "\<exists>cp'. getComp (set_dirty c v k) c = Some cp' \<and> c_dirty cp' = v"
proof (cases "c_dirty cp = v")
  case True
  with assms show ?thesis by (simp add: set_dirty_def)
next
  case False
  let ?k1 = "putComp c (cp\<lparr>c_dirty := v\<rparr>) k"
  have g: "getComp ?k1 c = Some (cp\<lparr>c_dirty := v\<rparr>)" using assms by (simp add: getComp_putComp)
  have p: "profile c_dirty (onStateChange c (state cp) ?k1) = profile c_dirty ?k1"
    by (rule profile_onStateChange) simp
  from getComp_profile_Some [OF p g]
  obtain cp' where "getComp (onStateChange c (state cp) ?k1) c = Some cp'" "c_dirty cp' = v"
    by auto
  with assms False show ?thesis by (simp add: set_dirty_def)
qed

lemma cleanerD:
  "cleaner k k' \<Longrightarrow> getVar k v = Some x \<Longrightarrow>
   \<exists>x'. getVar k' v = Some x' \<and> observers x' = observers x \<and> result x' = result x
        \<and> (dirty x' \<longrightarrow> dirty x)"
  unfolding cleaner_def by (drule spec [of _ v]) simp

lemma cleanerD_None: "cleaner k k' \<Longrightarrow> getVar k v = None \<Longrightarrow> getVar k' v = None"
  unfolding cleaner_def by (drule spec [of _ v]) simp

lemma cleaner_refl: "cleaner k k"
  by (simp add: cleaner_def split: option.splits)

lemma cleaner_same: "getVar k' = getVar k \<Longrightarrow> cleaner k k'"
  by (simp add: cleaner_def split: option.splits)

lemma cleaner_trans:
  assumes "cleaner k k1" and "cleaner k1 k2"
  shows "cleaner k k2"
  unfolding cleaner_def
proof
  fix v
  show "case getVar k v of None \<Rightarrow> getVar k2 v = None
     | Some x \<Rightarrow> (\<exists>x'. getVar k2 v = Some x' \<and> observers x' = observers x
                    \<and> result x' = result x \<and> (dirty x' \<longrightarrow> dirty x))"
  proof (cases "getVar k v")
    case None
    then have "getVar k1 v = None" using assms(1) by (simp add: cleanerD_None)
    then have "getVar k2 v = None" using assms(2) by (simp add: cleanerD_None)
    with None show ?thesis by simp
  next
    case (Some x)
    from cleanerD [OF assms(1) Some] obtain x1 where x1: "getVar k1 v = Some x1"
      "observers x1 = observers x" "result x1 = result x" "dirty x1 \<longrightarrow> dirty x" by blast
    from cleanerD [OF assms(2) x1(1)] obtain x2 where "getVar k2 v = Some x2"
      "observers x2 = observers x1" "result x2 = result x1" "dirty x2 \<longrightarrow> dirty x1" by blast
    with x1 Some show ?thesis by simp
  qed
qed

lemma cleanLoop:
  defines "step \<equiv> \<lambda>out k1. case getVar k1 out of
                         None \<Rightarrow> Returned k1
                       | Some x \<Rightarrow> cleanVariable out (putVar out (x\<lparr>dirty := False\<rparr>) k1)"
  assumes "\<forall>out \<in> set outs. \<forall>x. getVar k out = Some x \<longrightarrow>
             (\<forall>ob \<in> set (observers x). obs_body ob (result x) = None)"
    and "\<not> assertInvariants (options k)"
  shows "\<exists>k'. forEach outs step k = Returned k' \<and> cleaner k k' \<and> dic_le k k'
      \<and> (\<forall>out \<in> set outs. \<forall>x. getVar k out = Some x \<longrightarrow>
            (\<exists>x'. getVar k' out = Some x' \<and> \<not> dirty x'))"
  using assms(2-)
proof (induction outs arbitrary: k)
  case Nil
  then show ?case by (simp add: cleaner_refl)
next
  case (Cons out outs)
  have "\<exists>k4. step out k = Returned k4 \<and> cleaner k k4 \<and> dic_le k k4
        \<and> \<not> assertInvariants (options k4)
        \<and> (\<forall>x. getVar k out = Some x \<longrightarrow> (\<exists>x'. getVar k4 out = Some x' \<and> \<not> dirty x'))"
  proof (cases "getVar k out")
    case None
    with Cons.prems show ?thesis by (simp add: step_def cleaner_refl)
  next
    case (Some x)
    let ?x1 = "x\<lparr>dirty := False\<rparr>"
    let ?k3 = "putVar out ?x1 k"
    have x3: "getVar ?k3 out = Some ?x1" using Some by (simp add: getVar_putVar)
    have q3: "\<forall>ob \<in> set (observers ?x1). obs_body ob (result ?x1) = None"
      using Cons.prems(1) Some by simp
    have o3: "\<not> assertInvariants (options ?k3)" using Cons.prems(2) by (simp add: putVar_def)
    from cleanVariable_returns [OF x3 q3 o3] obtain k4
      where k4: "cleanVariable out ?k3 = Returned k4" by (elim exE)
    have f4: "vframe k4 = vframe ?k3" using vframe_cleanVariable [of out ?k3] k4 by simp
    have g4: "getVar k4 = getVar ?k3" using f4 by (rule getVar_vframe)
    have c3: "cleaner k ?k3"
      unfolding cleaner_def using Some by (auto simp: getVar_putVar split: option.splits)
    have c4: "cleaner k k4" using c3 cleaner_same [OF g4] by (rule cleaner_trans)
    have d4: "dic_le k k4"
      using dic_le_putVar [of k out ?x1] dic_le_cleanVariable [of ?k3 out] k4
      by (auto intro: dic_le_trans)
    have o4: "\<not> assertInvariants (options k4)" using o3 options_vframe [OF f4] by simp
    have "getVar k4 out = Some ?x1" using g4 x3 by simp
    with k4 Some c4 d4 o4 show ?thesis by (simp add: step_def)
  qed
  then obtain k4 where st: "step out k = Returned k4" and c4: "cleaner k k4"
    and d4: "dic_le k k4" and o4: "\<not> assertInvariants (options k4)"
    and out4: "\<forall>x. getVar k out = Some x \<longrightarrow> (\<exists>x'. getVar k4 out = Some x' \<and> \<not> dirty x')"
    by blast
  have q4: "\<forall>o' \<in> set outs. \<forall>x. getVar k4 o' = Some x \<longrightarrow>
             (\<forall>ob \<in> set (observers x). obs_body ob (result x) = None)"
  proof (intro ballI allI impI)
    fix o' x ob assume o': "o' \<in> set outs" and x: "getVar k4 o' = Some x"
      and ob: "ob \<in> set (observers x)"
    show "obs_body ob (result x) = None"
    proof (cases "getVar k o'")
      case None
      with c4 have "getVar k4 o' = None" by (simp add: cleanerD_None)
      with x show ?thesis by simp
    next
      case (Some x0)
      from cleanerD [OF c4 Some] x have "observers x = observers x0" "result x = result x0"
        by auto
      with Cons.prems(1) o' Some ob show ?thesis by simp
    qed
  qed
  from Cons.IH [OF q4 o4] obtain k' where r: "forEach outs step k4 = Returned k'"
    and c': "cleaner k4 k'" and d': "dic_le k4 k'"
    and outs': "\<forall>o' \<in> set outs. \<forall>x. getVar k4 o' = Some x \<longrightarrow>
            (\<exists>x'. getVar k' o' = Some x' \<and> \<not> dirty x')"
    by blast
  have all: "\<forall>o' \<in> set (out # outs). \<forall>x. getVar k o' = Some x \<longrightarrow>
            (\<exists>x'. getVar k' o' = Some x' \<and> \<not> dirty x')"
  proof (intro ballI allI impI)
    fix o' x assume o': "o' \<in> set (out # outs)" and x: "getVar k o' = Some x"
    show "\<exists>x'. getVar k' o' = Some x' \<and> \<not> dirty x'"
    proof (cases "o' = out")
      case True
      with out4 x obtain x4 where x4: "getVar k4 out = Some x4" "\<not> dirty x4" by blast
      from cleanerD [OF c' x4(1)] x4(2) True show ?thesis by auto
    next
      case False
      with o' have in_outs: "o' \<in> set outs" by simp
      from cleanerD [OF c4 x] obtain x4 where "getVar k4 o' = Some x4" by blast
      with outs' in_outs show ?thesis by blast
    qed
  qed
  from st r have "forEach (out # outs) step k = Returned k'" by simp
  moreover have "cleaner k k'" using c4 c' by (rule cleaner_trans)
  moreover have "dic_le k k'" using d4 d' by (rule dic_le_trans)
  ultimately show ?case using all by blast
qed


lemma Ready_observed: "state cp = Ready \<Longrightarrow> c_observeCount cp \<noteq> 0"
  by (auto simp: state_def split: if_splits)

lemma vframe_taskIdCounter [simp]: "vframe (k\<lparr>taskIdCounter := n\<rparr>) = vframe k"
  by (simp add: vframe_def)

text \<open>
  Input pruning when nothing throws.  When a Ready computation is dispatched with
  \<open>input_version > 0\<close> and no runtime input has a \<open>value_at\<close> above \<open>input_version\<close>, the body is
  not invoked; if moreover no observer of an output throws and the invariant assertions
  are off, the dispatch ends as input pruning with all outputs clean and the computation
  not dirty.  With \<open>input_version = 0\<close> the body is invoked.
\<close>

lemma input_pruning_quiet:
  assumes c: "getComp k c = Some cp" and ready: "state cp = Ready"
  shows "(0 < input_version cp
          \<and> (\<forall>i \<in> set (runtimeInputs cp). \<forall>x. getVar k i = Some x
                \<longrightarrow> value_at x \<le> input_version cp)
          \<longrightarrow> (\<forall>tid k'. executeComputation c k \<noteq> BodyInvoked tid k')
            \<and> ((\<forall>out \<in> set (outputs cp). \<forall>x. getVar k out = Some x \<longrightarrow>
                   (\<forall>ob \<in> set (observers x). obs_body ob (result x) = None))
                \<and> \<not> assertInvariants (options k)
                \<longrightarrow> (\<exists>k'. executeComputation c k = InputPruned k'
                      \<and> (\<forall>out \<in> set (outputs cp). \<forall>x. getVar k out = Some x \<longrightarrow>
                            (\<exists>x'. getVar k' out = Some x' \<and> \<not> dirty x'))
                      \<and> (\<exists>cp'. getComp k' c = Some cp' \<and> \<not> c_dirty cp'))))
       \<and> (input_version cp = 0 \<longrightarrow> (\<exists>tid k'. executeComputation c k = BodyInvoked tid k'))"
proof (intro conjI impI)
  let ?k1 = "k\<lparr>taskIdCounter := taskIdCounter k + 1\<rparr>"
  have c1: "getComp ?k1 c = Some cp" using c by simp
  have obs: "c_observeCount cp \<noteq> 0" using ready by (rule Ready_observed)
  {
    assume "input_version cp = 0"
    then have "maybeSkipExecution c ?k1 = (False, Returned ?k1)"
      using c1 by (simp add: maybeSkipExecution_def shouldExecute_def)
    then show "\<exists>tid k'. executeComputation c k = BodyInvoked tid k'"
      using c ready obs by (simp add: executeComputation_def Let_def)
  }
  assume prune: "0 < input_version cp
          \<and> (\<forall>i \<in> set (runtimeInputs cp). \<forall>x. getVar k i = Some x
                \<longrightarrow> value_at x \<le> input_version cp)"
  have "getMaxInputVersionFrom ?k1 0 (runtimeInputs cp) \<le> input_version cp"
    using prune by (intro getMaxInputVersionFrom_le) simp_all
  then have noRun: "\<not> shouldExecute ?k1 cp"
    using prune by (simp add: shouldExecute_def getMaxInputVersion_def)
  let ?step = "\<lambda>out k1. case getVar k1 out of
                         None \<Rightarrow> Returned k1
                       | Some x \<Rightarrow> cleanVariable out (putVar out (x\<lparr>dirty := False\<rparr>) k1)"
  have skip: "maybeSkipExecution c ?k1
        = (True, andThen (forEach (outputs cp) ?step ?k1) (\<lambda>k2. Returned (set_dirty c False k2)))"
    using c1 noRun by (simp add: maybeSkipExecution_def cleanOutputDirty_def)
  show "\<forall>tid k'. executeComputation c k \<noteq> BodyInvoked tid k'"
    using c ready obs skip
    by (simp add: executeComputation_def Let_def split: outcome.splits)
  assume quiet: "(\<forall>out \<in> set (outputs cp). \<forall>x. getVar k out = Some x \<longrightarrow>
                   (\<forall>ob \<in> set (observers x). obs_body ob (result x) = None))
                \<and> \<not> assertInvariants (options k)"
  have q1: "\<forall>out \<in> set (outputs cp). \<forall>x. getVar ?k1 out = Some x \<longrightarrow>
             (\<forall>ob \<in> set (observers x). obs_body ob (result x) = None)"
    using quiet by simp
  have o1: "\<not> assertInvariants (options ?k1)" using quiet by simp
  from cleanLoop [OF q1 o1] obtain k2 where r: "forEach (outputs cp) ?step ?k1 = Returned k2"
    and cl: "cleaner ?k1 k2" and dl: "dic_le ?k1 k2"
    and outs: "\<forall>out \<in> set (outputs cp). \<forall>x. getVar ?k1 out = Some x \<longrightarrow>
            (\<exists>x'. getVar k2 out = Some x' \<and> \<not> dirty x')"
    by blast
  let ?k3 = "set_dirty c False k2"
  have res: "executeComputation c k = InputPruned ?k3"
    using c ready obs skip r by (simp add: executeComputation_def Let_def)
  have g3: "getVar ?k3 = getVar k2" by (rule getVar_vframe) simp
  from dl c1 obtain cp2 where "getComp k2 c = Some cp2" unfolding dic_le_def by blast
  from dirty_set_dirty [OF this, of False]
  have comp3: "\<exists>cp'. getComp ?k3 c = Some cp' \<and> \<not> c_dirty cp'" by simp
  have outs3: "\<forall>out \<in> set (outputs cp). \<forall>x. getVar k out = Some x \<longrightarrow>
                            (\<exists>x'. getVar ?k3 out = Some x' \<and> \<not> dirty x')"
    using outs unfolding g3 by simp
  from res outs3 comp3
  show "\<exists>k'. executeComputation c k = InputPruned k'
                      \<and> (\<forall>out \<in> set (outputs cp). \<forall>x. getVar k out = Some x \<longrightarrow>
                            (\<exists>x'. getVar k' out = Some x' \<and> \<not> dirty x'))
                      \<and> (\<exists>cp'. getComp k' c = Some cp' \<and> \<not> c_dirty cp')"
    by blast
qed

lemma input_pruning_quiet_example:
  "getComp prunableY ''Y'' = Some (compY 2) \<and> state (compY 2) = Ready
   \<and> (\<exists>k'. executeComputation ''Y'' prunableY = InputPruned k'
          \<and> (\<exists>cp'. getComp k' ''Y'' = Some cp' \<and> \<not> c_dirty cp'))
   \<and> getComp neverRunY ''Y'' = Some (compY 0) \<and> state (compY 0) = Ready
   \<and> (\<exists>tid k'. executeComputation ''Y'' neverRunY = BodyInvoked tid k')"
proof -
  have c: "getComp prunableY ''Y'' = Some (compY 2)"
    by (simp add: prunableY_def kernelY_def newKernel_def getComp_def)
  have r: "state (compY 2) = Ready" by (simp add: state_def compY_def)
  have c0: "getComp neverRunY ''Y'' = Some (compY 0)"
    by (simp add: neverRunY_def kernelY_def newKernel_def getComp_def)
  have r0: "state (compY 0) = Ready" by (simp add: state_def compY_def)
  have h: "0 < input_version (compY 2)
          \<and> (\<forall>i \<in> set (runtimeInputs (compY 2)). \<forall>x. getVar prunableY i = Some x
                \<longrightarrow> value_at x \<le> input_version (compY 2))"
    by (simp add: compY_def prunableY_def kernelY_def newKernel_def getVar_def)
  have q: "(\<forall>out \<in> set (outputs (compY 2)). \<forall>x. getVar prunableY out = Some x \<longrightarrow>
                   (\<forall>ob \<in> set (observers x). obs_body ob (result x) = None))
                \<and> \<not> assertInvariants (options prunableY)"
    by (simp add: compY_def prunableY_def kernelY_def newKernel_def getVar_def
        observerSeven_def defaultOptions_def)
  have z: "input_version (compY 0) = 0" by (simp add: compY_def)
  from input_pruning_quiet [OF c r] h q
  have "\<exists>k'. executeComputation ''Y'' prunableY = InputPruned k'
          \<and> (\<exists>cp'. getComp k' ''Y'' = Some cp' \<and> \<not> c_dirty cp')" by blast
  moreover from input_pruning_quiet [OF c0 r0] z
  have "\<exists>tid k'. executeComputation ''Y'' neverRunY = BodyInvoked tid k'" by blast
  ultimately show ?thesis using c r c0 r0 by blast
qed

lemma error_commit_quiet_example:
  "getComp runningE ''E'' = Some compE
   \<and> \<not> isAbortError (ThrownValue (JStr ''boom'')) \<and> distinct (outputs compE)
   \<and> \<not> assertInvariants (options runningE)
   \<and> (\<exists>k' xu xw. handleExecutionError ''E'' (ThrownValue (JStr ''boom'')) 1 runningE
            = Threw (ThrownValue (JStr ''boom'')) k'
          \<and> logicalClock k' = 7
          \<and> getVar k' ''u'' = Some xu \<and> value_at xu = 6
          \<and> getVar k' ''w'' = Some xw \<and> value_at xw = 7)"
proof -
  have c: "getComp runningE ''E'' = Some compE"
    by (simp add: runningE_def newKernel_def getComp_def)
  have a: "\<not> isAbortError (ThrownValue (JStr ''boom''))" by (simp add: isAbortError_def)
  have d: "distinct (outputs compE)" by (simp add: compE_def)
  have q: "\<forall>out \<in> set (outputs compE). \<exists>x. getVar runningE out = Some x
            \<and> (\<forall>ob \<in> set (observers x). obs_body ob (Error (ThrownValue (JStr ''boom''))) = None)"
    by (simp add: compE_def runningE_def newKernel_def getVar_def observerSeven_def)
  have off: "\<not> assertInvariants (options runningE)"
    by (simp add: runningE_def newKernel_def defaultOptions_def)
  from error_commit_quiet [OF c a d q off, of 1] obtain k' where
    t: "handleExecutionError ''E'' (ThrownValue (JStr ''boom'')) 1 runningE
            = Threw (ThrownValue (JStr ''boom'')) k'"
    and clk: "logicalClock k' = logicalClock runningE + int (length (outputs compE))"
    and idx: "\<forall>i < length (outputs compE). \<exists>x'. getVar k' (outputs compE ! i) = Some x'
            \<and> result x' = Error (ThrownValue (JStr ''boom'')) \<and> \<not> dirty x'
            \<and> value_at x' = logicalClock runningE + int i + 1"
    by blast
  have l: "length (outputs compE) = 2" "outputs compE ! 0 = ''u''" "outputs compE ! 1 = ''w''"
    by (simp_all add: compE_def)
  have k5: "logicalClock runningE = 5" by (simp add: runningE_def newKernel_def)
  from idx l have "\<exists>x'. getVar k' ''u'' = Some x' \<and> value_at x' = logicalClock runningE + 0 + 1"
    by (metis int_ops(1) zero_less_numeral)
  moreover from idx l have "\<exists>x'. getVar k' ''w'' = Some x' \<and> value_at x' = logicalClock runningE + 1 + 1"
    by (metis int_ops(2) one_less_numeral_iff semiring_norm(76))
  ultimately show ?thesis using c a d off t clk l k5 by auto
qed

subsection \<open>Downward propagation keeps the clock and the sources\<close>

lemma belowCause_profile:
  assumes "profile c_cause_at k' = profile c_cause_at k"
  shows "belowCause N k' = belowCause N k"
proof -
  have e: "\<And>al. length (filter (\<lambda>p. c_cause_at (snd p) < N) al)
        = length (filter (\<lambda>q. snd q < N) (map (\<lambda>p. (fst p, c_cause_at (snd p))) al))"
    by (simp add: filter_map o_def)
  from assms have "map (\<lambda>p. (fst p, c_cause_at (snd p))) (computations k')
      = map (\<lambda>p. (fst p, c_cause_at (snd p))) (computations k)"
    and "map (\<lambda>p. (fst p, c_cause_at (snd p))) (problem_computations k')
      = map (\<lambda>p. (fst p, c_cause_at (snd p))) (problem_computations k)"
    by (simp_all add: profile_def)
  then show ?thesis by (simp add: belowCause_def e)
qed

lemma totalComps_profile:
  assumes "profile f k' = profile f k"
  shows "totalComps k' = totalComps k"
proof -
  from assms have "map (\<lambda>p. (fst p, f (snd p))) (computations k')
      = map (\<lambda>p. (fst p, f (snd p))) (computations k)"
    and "map (\<lambda>p. (fst p, f (snd p))) (problem_computations k')
      = map (\<lambda>p. (fst p, f (snd p))) (problem_computations k)"
    by (simp_all add: profile_def)
  then have "length (map (\<lambda>p. (fst p, f (snd p))) (computations k'))
       = length (map (\<lambda>p. (fst p, f (snd p))) (computations k))"
    and "length (map (\<lambda>p. (fst p, f (snd p))) (problem_computations k'))
       = length (map (\<lambda>p. (fst p, f (snd p))) (problem_computations k))"
    by simp_all
  then show ?thesis by (simp add: totalComps_def)
qed

lemma belowCause_le_total: "belowCause N k \<le> totalComps k"
  by (simp add: belowCause_def totalComps_def add_mono)

lemma unproduced_profile:
  assumes p: "profile outputs k' = profile outputs k" and u: "unproduced v k"
  shows "unproduced v k'"
  unfolding unproduced_def
proof (intro allI impI)
  fix c cp' assume c: "getComp k' c = Some cp'"
  from getComp_profile_Some [OF p [symmetric] c]
  obtain cp where cp: "getComp k c = Some cp" "outputs cp = outputs cp'" by auto
  from u cp(1) have "v \<notin> set (outputs cp)" unfolding unproduced_def by blast
  with cp(2) show "v \<notin> set (outputs cp')" by simp
qed

lemma stable_refl: "stable v N k k"
  by (simp add: stable_def)

lemma stable_trans:
  assumes "stable v N k k1" and "stable v N k1 k2"
  shows "stable v N k k2"
proof -
  have p1: "profile outputs k1 = profile outputs k" using assms(1) by (simp add: stable_def)
  have u1: "unproduced v k \<Longrightarrow> unproduced v k1" by (rule unproduced_profile [OF p1])
  have "unproduced v k \<longrightarrow> getVar k2 v = getVar k v"
  proof
    assume u: "unproduced v k"
    then have "getVar k1 v = getVar k v" using assms(1) by (simp add: stable_def)
    moreover have "getVar k2 v = getVar k1 v" using assms(2) u1 [OF u] by (simp add: stable_def)
    ultimately show "getVar k2 v = getVar k v" by simp
  qed
  moreover have "belowCause N k2 \<le> belowCause N k" using assms by (simp add: stable_def)
  moreover have "profile outputs k2 = profile outputs k" using assms by (simp add: stable_def)
  moreover have "logicalClock k2 = logicalClock k" "options k2 = options k"
    using assms by (simp_all add: stable_def)
  ultimately show ?thesis by (simp add: stable_def)
qed

lemma stable_setter:
  assumes "frame k' = frame k" and "profile outputs k' = profile outputs k"
    and "profile c_cause_at k' = profile c_cause_at k"
  shows "stable v N k k'"
proof -
  have "vframe k' = vframe k" using assms(1) by (rule vframe_frame)
  then have "getVar k' = getVar k" "logicalClock k' = logicalClock k" "options k' = options k"
    using getVar_vframe [of k' k] by (simp_all add: vframe_def)
  with assms(2) belowCause_profile [OF assms(3)] show ?thesis by (simp add: stable_def)
qed

lemma sched_blind_outputs [simp]: "sched_blind outputs"
  by (simp add: sched_blind_def)

lemma sched_blind_cause [simp]: "sched_blind c_cause_at"
  by (simp add: sched_blind_def)

lemma stable_set_dirtyInputCount: "stable v N k (set_dirtyInputCount c n k)"
  by (rule stable_setter) (simp_all add: profile_set_dirtyInputCount)

lemma stable_set_dirty: "stable v N k (set_dirty c b k)"
  by (rule stable_setter) (simp_all add: profile_set_dirty)

lemma stable_logError: "stable v N k (logError e k)"
  by (simp add: stable_def logError_def profile_def belowCause_def)

lemma stable_assertDirtyInputCount: "stable v N k (kernel_of (assertDirtyInputCount c k))"
  by (simp add: assertDirtyInputCount_def Let_def stable_refl stable_logError split: option.splits)

lemma stable_tryIncrementDirtyInputCount:
  "stable v N k (kernel_of (tryIncrementDirtyInputCount c src isNew k))"
proof -
  have "\<And>n. stable v N k (kernel_of (assertDirtyInputCount c (set_dirtyInputCount c n k)))"
    using stable_set_dirtyInputCount stable_assertDirtyInputCount by (rule stable_trans)
  then show ?thesis
    by (simp add: tryIncrementDirtyInputCount_def stable_refl split: option.splits)
qed

lemma filter_update_count:
  assumes "map_of al c = Some y"
  shows "length (filter (\<lambda>p. P (snd p)) (AList.update c x al)) + (if P y then 1 else 0)
       = length (filter (\<lambda>p. P (snd p)) al) + (if P x then 1 else 0)"
  using assms by (induction al) (auto split: if_splits)

lemma belowCause_putComp:
  assumes "getComp k c = Some cp"
  shows "belowCause N (putComp c x k) + (if c_cause_at cp < N then 1 else 0)
       = belowCause N k + (if c_cause_at x < N then 1 else 0)"
proof (cases "map_of (computations k) c")
  case None
  with assms have m: "map_of (problem_computations k) c = Some cp" by (simp add: getComp_def)
  from filter_update_count [OF m, of "\<lambda>q. c_cause_at q < N" x] None m
  show ?thesis by (simp add: belowCause_def putComp_def)
next
  case (Some y)
  with assms have m: "map_of (computations k) c = Some cp" by (simp add: getComp_def)
  from filter_update_count [OF m, of "\<lambda>q. c_cause_at q < N" x] m
  show ?thesis by (simp add: belowCause_def putComp_def)
qed

lemma frame_vframe_putComp [simp]: "vframe (putComp c x k) = vframe k"
  by (rule vframe_frame) simp

lemma set_cause_at_unfold:
  assumes "getComp k c = Some cp" and "sched_blind f"
  shows "profile f (set_cause_at c N k) = profile f (putComp c (cp\<lparr>c_cause_at := N\<rparr>) k)"
  using assms
  by (simp add: set_cause_at_def Let_def profile_checkAbortOnCauseAtChange)

lemma stable_set_cause_at: "stable v N k (set_cause_at c N k)"
proof (cases "getComp k c")
  case None
  then show ?thesis by (simp add: set_cause_at_def stable_refl)
next
  case (Some cp)
  let ?k1 = "putComp c (cp\<lparr>c_cause_at := N\<rparr>) k"
  have b1: "belowCause N ?k1 \<le> belowCause N k"
    using belowCause_putComp [OF Some, of N "cp\<lparr>c_cause_at := N\<rparr>"] by (simp split: if_splits)
  have pc: "profile c_cause_at (set_cause_at c N k) = profile c_cause_at ?k1"
    by (rule set_cause_at_unfold [OF Some]) simp
  have po: "profile outputs (set_cause_at c N k) = profile outputs k"
    using set_cause_at_unfold [OF Some, of outputs N]
      profile_putComp [OF Some, of outputs "cp\<lparr>c_cause_at := N\<rparr>"]
    by simp
  have f: "vframe (set_cause_at c N k) = vframe k" by (rule vframe_frame) simp
  have "belowCause N (set_cause_at c N k) \<le> belowCause N k"
    using belowCause_profile [OF pc] b1 by simp
  with po f getVar_vframe [OF f] show ?thesis by (simp add: stable_def vframe_def)
qed

lemma belowCause_set_cause_at_less:
  assumes "getComp k c = Some cp" and "c_cause_at cp < N"
  shows "belowCause N (set_cause_at c N k) < belowCause N k"
proof -
  let ?k1 = "putComp c (cp\<lparr>c_cause_at := N\<rparr>) k"
  have "belowCause N ?k1 < belowCause N k"
    using belowCause_putComp [OF assms(1), of N "cp\<lparr>c_cause_at := N\<rparr>"] assms(2) by simp
  moreover have "profile c_cause_at (set_cause_at c N k) = profile c_cause_at ?k1"
    by (rule set_cause_at_unfold [OF assms(1)]) simp
  then have "belowCause N (set_cause_at c N k) = belowCause N ?k1" by (rule belowCause_profile)
  ultimately show ?thesis by simp
qed

lemma profile_putVar [simp]: "profile f (putVar v x k) = profile f k"
  by (simp add: profile_def putVar_def)

lemma stable_putVar:
  assumes "unproduced v k \<longrightarrow> out \<noteq> v"
  shows "stable v N k (putVar out x k)"
proof -
  have "belowCause N (putVar out x k) = belowCause N k"
    by (rule belowCause_profile) simp
  moreover have "options (putVar out x k) = options k" by (simp add: putVar_def)
  ultimately show ?thesis using assms by (auto simp: stable_def getVar_putVar)
qed

lemma stable_propagateToOutputs:
  assumes recur: "\<And>d src isNew k. stable v N k (kernel_of (recur d N src isNew k))"
  shows "stable v N k (kernel_of (propagateToOutputs recur c N k))"
proof (cases "getComp k c")
  case None
  then show ?thesis by (simp add: propagateToOutputs_def stable_refl)
next
  case (Some cp)
  have "stable v N k (kernel_of (forEach (outputs cp)
            (\<lambda>out k4.
               case (getVar k4 out, getComp k4 c) of
                 (Some x, Some cp4) \<Rightarrow>
                   let wasOutputDirty = dirty x;
                       k5 = putVar out (x\<lparr>cause_at := c_cause_at cp4, dirty := True\<rparr>) k4
                   in forEach (dependents x)
                        (\<lambda>downstreamComp k6.
                           recur downstreamComp N (Some out) (\<not> wasOutputDirty) k6)
                        k5
               | _ \<Rightarrow> Returned k4)
            k))"
  proof (rule forEach_inv [where P = "stable v N k"])
    show "stable v N k k" by (rule stable_refl)
  next
    fix out and k4 :: kernel
    assume out: "out \<in> set (outputs cp)" and s4: "stable v N k k4"
    show "stable v N k (kernel_of (case (getVar k4 out, getComp k4 c) of
                 (Some x, Some cp4) \<Rightarrow>
                   let wasOutputDirty = dirty x;
                       k5 = putVar out (x\<lparr>cause_at := c_cause_at cp4, dirty := True\<rparr>) k4
                   in forEach (dependents x)
                        (\<lambda>downstreamComp k6.
                           recur downstreamComp N (Some out) (\<not> wasOutputDirty) k6)
                        k5
               | _ \<Rightarrow> Returned k4))"
    proof (cases "getVar k4 out")
      case None
      with s4 show ?thesis by simp
    next
      case vx: (Some x)
      show ?thesis
      proof (cases "getComp k4 c")
        case None
        with vx s4 show ?thesis by simp
      next
        case c4: (Some cp4)
        let ?k5 = "putVar out (x\<lparr>cause_at := c_cause_at cp4, dirty := True\<rparr>) k4"
        have p4: "profile outputs k4 = profile outputs k" using s4 by (simp add: stable_def)
        from getComp_profile_Some [OF p4 Some] c4 have o4: "outputs cp4 = outputs cp" by auto
        have "unproduced v k4 \<longrightarrow> out \<noteq> v"
        proof
          assume "unproduced v k4"
          with c4 have "v \<notin> set (outputs cp4)" unfolding unproduced_def by blast
          with o4 out show "out \<noteq> v" by auto
        qed
        then have s5: "stable v N k4 ?k5" by (rule stable_putVar)
        have "stable v N ?k5 (kernel_of (forEach (dependents x)
                        (\<lambda>downstreamComp k6.
                           recur downstreamComp N (Some out) (\<not> dirty x) k6) ?k5))"
        proof (rule forEach_inv [where P = "stable v N ?k5"])
          show "stable v N ?k5 ?k5" by (rule stable_refl)
        next
          fix d and k6 :: kernel assume "stable v N ?k5 k6"
          then show "stable v N ?k5 (kernel_of (recur d N (Some out) (\<not> dirty x) k6))"
            using recur by (rule stable_trans)
        qed
        with s5 have "stable v N k4 (kernel_of (forEach (dependents x)
                        (\<lambda>downstreamComp k6.
                           recur downstreamComp N (Some out) (\<not> dirty x) k6) ?k5))"
          by (rule stable_trans)
        with s4 have "stable v N k (kernel_of (forEach (dependents x)
                        (\<lambda>downstreamComp k6.
                           recur downstreamComp N (Some out) (\<not> dirty x) k6) ?k5))"
          by (rule stable_trans)
        with vx c4 show ?thesis by (simp add: Let_def)
      qed
    qed
  qed
  with Some show ?thesis by (simp add: propagateToOutputs_def)
qed

lemma stable_propagateRec:
  "stable v N k (kernel_of (propagateCauseAtDownwardRec depth c N src isNew k))"
proof (induction depth arbitrary: c src isNew k)
  case 0
  then show ?case by (simp add: stable_refl)
next
  case (Suc depth)
  show ?case
    unfolding propagateCauseAtDownwardRec.simps
  proof (rule andThen_inv [where P = "stable v N k"])
    show "stable v N k (kernel_of (tryIncrementDirtyInputCount c src isNew k))"
      by (rule stable_tryIncrementDirtyInputCount)
  next
    fix k1 :: kernel assume s1: "stable v N k k1"
    let ?k3 = "set_dirty c True (updateCauseAt c N k1)"
    have s3: "stable v N k1 ?k3"
      unfolding updateCauseAt_def using stable_set_cause_at stable_set_dirty by (rule stable_trans)
    have "stable v N ?k3 (kernel_of (propagateToOutputs (propagateCauseAtDownwardRec depth) c N ?k3))"
      by (rule stable_propagateToOutputs) (rule Suc.IH)
    with s3 have "stable v N k1 (kernel_of (propagateToOutputs (propagateCauseAtDownwardRec depth) c N ?k3))"
      by (rule stable_trans)
    then have "stable v N k1 (kernel_of (case getComp k1 c of
         None \<Rightarrow> Returned k1
       | Some cp \<Rightarrow>
           if N \<le> c_cause_at cp then Returned k1
           else propagateToOutputs (propagateCauseAtDownwardRec depth) c N
                  (set_dirty c True (updateCauseAt c N k1))))"
      by (simp add: stable_refl split: option.splits)
    with s1 show "stable v N k (kernel_of (case getComp k1 c of
         None \<Rightarrow> Returned k1
       | Some cp \<Rightarrow>
           if N \<le> c_cause_at cp then Returned k1
           else propagateToOutputs (propagateCauseAtDownwardRec depth) c N
                  (set_dirty c True (updateCauseAt c N k1))))"
      by (rule stable_trans)
  qed
qed

subsection \<open>Downward propagation returns\<close>

lemma tryIncrementDirtyInputCount_returns:
  "\<not> assertInvariants (options k) \<Longrightarrow>
   \<exists>k'. tryIncrementDirtyInputCount c src isNew k = Returned k'"
  by (simp add: tryIncrementDirtyInputCount_def assertDirtyInputCount_def split: option.splits)

lemma fits_stable: "stable v N k k' \<Longrightarrow> fits N depth k \<Longrightarrow> fits N depth k'"
  by (simp add: stable_def fits_def)

lemma propagateToOutputs_returns:
  assumes ret: "\<And>d src isNew k. fits N depth k \<Longrightarrow> \<exists>k'. recur d N src isNew k = Returned k'"
    and st: "\<And>d src isNew k. stable v N k (kernel_of (recur d N src isNew k))"
    and fit: "fits N depth k"
  shows "\<exists>k'. propagateToOutputs recur c N k = Returned k'"
proof (cases "getComp k c")
  case None
  then show ?thesis by (simp add: propagateToOutputs_def)
next
  case (Some cp)
  have "\<exists>k'. forEach (outputs cp)
            (\<lambda>out k4.
               case (getVar k4 out, getComp k4 c) of
                 (Some x, Some cp4) \<Rightarrow>
                   let wasOutputDirty = dirty x;
                       k5 = putVar out (x\<lparr>cause_at := c_cause_at cp4, dirty := True\<rparr>) k4
                   in forEach (dependents x)
                        (\<lambda>downstreamComp k6.
                           recur downstreamComp N (Some out) (\<not> wasOutputDirty) k6)
                        k5
               | _ \<Rightarrow> Returned k4)
            k = Returned k' \<and> fits N depth k'"
  proof (rule forEach_returns [where P = "fits N depth"])
    show "fits N depth k" by (rule fit)
  next
    fix out and k4 :: kernel
    assume f4: "fits N depth k4"
    show "\<exists>k'. (case (getVar k4 out, getComp k4 c) of
                 (Some x, Some cp4) \<Rightarrow>
                   let wasOutputDirty = dirty x;
                       k5 = putVar out (x\<lparr>cause_at := c_cause_at cp4, dirty := True\<rparr>) k4
                   in forEach (dependents x)
                        (\<lambda>downstreamComp k6.
                           recur downstreamComp N (Some out) (\<not> wasOutputDirty) k6)
                        k5
               | _ \<Rightarrow> Returned k4) = Returned k' \<and> fits N depth k'"
    proof (cases "getVar k4 out")
      case None
      with f4 show ?thesis by simp
    next
      case vx: (Some x)
      show ?thesis
      proof (cases "getComp k4 c")
        case None
        with vx f4 show ?thesis by simp
      next
        case c4: (Some cp4)
        let ?k5 = "putVar out (x\<lparr>cause_at := c_cause_at cp4, dirty := True\<rparr>) k4"
        have "belowCause N ?k5 = belowCause N k4" by (rule belowCause_profile) simp
        moreover have "options ?k5 = options k4" by (simp add: putVar_def)
        ultimately have f5: "fits N depth ?k5" using f4 by (simp add: fits_def)
        have "\<exists>k'. forEach (dependents x)
                        (\<lambda>downstreamComp k6.
                           recur downstreamComp N (Some out) (\<not> dirty x) k6) ?k5 = Returned k'
                \<and> fits N depth k'"
        proof (rule forEach_returns [where P = "fits N depth"])
          show "fits N depth ?k5" by (rule f5)
        next
          fix d and k6 :: kernel assume f6: "fits N depth k6"
          from ret [OF f6, of d "Some out" "\<not> dirty x"] obtain k7 where k7: "recur d N (Some out) (\<not> dirty x) k6 = Returned k7"
            by (elim exE)
          have "stable v N k6 (kernel_of (recur d N (Some out) (\<not> dirty x) k6))" by (rule st)
          with k7 have "stable v N k6 k7" by simp
          then have "fits N depth k7" using f6 by (rule fits_stable)
          with k7 show "\<exists>k'. recur d N (Some out) (\<not> dirty x) k6 = Returned k' \<and> fits N depth k'"
            by simp
        qed
        with vx c4 show ?thesis by (simp add: Let_def)
      qed
    qed
  qed
  with Some show ?thesis by (auto simp: propagateToOutputs_def)
qed

lemma propagateRec_returns:
  "fits N depth k \<Longrightarrow> \<exists>k'. propagateCauseAtDownwardRec depth c N src isNew k = Returned k'"
proof (induction depth arbitrary: c src isNew k)
  case 0
  then show ?case by (simp add: fits_def)
next
  case (Suc depth)
  from Suc.prems have off: "\<not> assertInvariants (options k)" by (simp add: fits_def)
  from tryIncrementDirtyInputCount_returns [OF off, of c src isNew] obtain k1
    where k1: "tryIncrementDirtyInputCount c src isNew k = Returned k1" by (elim exE)
  have "stable c N k (kernel_of (tryIncrementDirtyInputCount c src isNew k))"
    by (rule stable_tryIncrementDirtyInputCount)
  with k1 have s1: "stable c N k k1" by simp
  then have f1: "fits N (Suc depth) k1" using Suc.prems by (rule fits_stable)
  show ?case
  proof (cases "getComp k1 c")
    case None
    with k1 show ?thesis by simp
  next
    case (Some cp)
    show ?thesis
    proof (cases "N \<le> c_cause_at cp")
      case True
      with k1 Some show ?thesis by simp
    next
      case False
      let ?k2 = "updateCauseAt c N k1"
      let ?k3 = "set_dirty c True ?k2"
      have lt: "c_cause_at cp < N" using False by simp
      have "belowCause N ?k2 < belowCause N k1"
        unfolding updateCauseAt_def by (rule belowCause_set_cause_at_less [OF Some lt])
      moreover have "stable c N ?k2 ?k3" by (rule stable_set_dirty)
      moreover have "stable c N k1 ?k2" unfolding updateCauseAt_def by (rule stable_set_cause_at)
      ultimately have f3: "fits N depth ?k3"
        using f1 by (simp add: fits_def stable_def)
      have "\<exists>k'. propagateToOutputs (propagateCauseAtDownwardRec depth) c N ?k3 = Returned k'"
        using Suc.IH stable_propagateRec f3 by (rule propagateToOutputs_returns)
      with k1 Some False show ?thesis by simp
    qed
  qed
qed

lemma fits_top: "\<not> assertInvariants (options k) \<Longrightarrow> fits N (Suc (totalComps k)) k"
  using belowCause_le_total [of N k] by (simp add: fits_def)

lemma propagateCauseAtDownward_returns:
  "\<not> assertInvariants (options k) \<Longrightarrow>
   \<exists>k'. propagateCauseAtDownward c N src isNew k = Returned k'"
  unfolding propagateCauseAtDownward_def
  by (rule propagateRec_returns) (simp add: fits_top [unfolded totalComps_def])

lemma stable_propagateCauseAtDownward:
  "stable v N k (kernel_of (propagateCauseAtDownward c N src isNew k))"
  unfolding propagateCauseAtDownward_def by (rule stable_propagateRec)

lemma stable_markDirty: "stable v N k (kernel_of (markDirty w N isNew k))"
proof (cases "getVar k w")
  case None
  then show ?thesis by (simp add: markDirty_def stable_refl)
next
  case (Some x)
  have "stable v N k (kernel_of (forEach (dependents x)
          (\<lambda>c k1. propagateCauseAtDownward c N (Some w) isNew k1) k))"
  proof (rule forEach_inv [where P = "stable v N k"])
    show "stable v N k k" by (rule stable_refl)
  next
    fix c and k1 :: kernel assume "stable v N k k1"
    then show "stable v N k (kernel_of (propagateCauseAtDownward c N (Some w) isNew k1))"
      using stable_propagateCauseAtDownward by (rule stable_trans)
  qed
  with Some show ?thesis by (simp add: markDirty_def)
qed

lemma markDirty_returns:
  assumes "\<not> assertInvariants (options k)"
  shows "\<exists>k'. markDirty w N isNew k = Returned k'"
proof (cases "getVar k w")
  case None
  then show ?thesis by (simp add: markDirty_def)
next
  case (Some x)
  have "\<exists>k'. forEach (dependents x)
          (\<lambda>c k1. propagateCauseAtDownward c N (Some w) isNew k1) k = Returned k'
        \<and> \<not> assertInvariants (options k')"
  proof (rule forEach_returns [where P = "\<lambda>k'. \<not> assertInvariants (options k')"])
    show "\<not> assertInvariants (options k)" by (rule assms)
  next
    fix c and k1 :: kernel assume o1: "\<not> assertInvariants (options k1)"
    from propagateCauseAtDownward_returns [OF o1, of c N "Some w" isNew] obtain k2
      where k2: "propagateCauseAtDownward c N (Some w) isNew k1 = Returned k2" by (elim exE)
    have "stable w N k1 (kernel_of (propagateCauseAtDownward c N (Some w) isNew k1))"
      by (rule stable_propagateCauseAtDownward)
    with k2 o1 have "\<not> assertInvariants (options k2)" by (simp add: stable_def)
    with k2 show "\<exists>k'. propagateCauseAtDownward c N (Some w) isNew k1 = Returned k'
        \<and> \<not> assertInvariants (options k')" by simp
  qed
  with Some show ?thesis by (auto simp: markDirty_def)
qed

subsection \<open>Updating a source\<close>

lemma unproduced_same: "getComp k' = getComp k \<Longrightarrow> unproduced v k \<Longrightarrow> unproduced v k'"
  by (simp add: unproduced_def)

text \<open>
  C8.  \<^verbatim>\<open>updateSource\<close> on an existing source (a variable without producer, which no
  computation lists among its outputs) leaves the logical clock exactly one higher; the
  variable's \<open>cause_at\<close> is the new clock value whether or not the value changed; its
  \<open>value_at\<close> and result change, to the new clock value and the new value, only when the
  value is not deep-equal to the old one; and the variable is not dirty.  This holds for
  the kernel the call leaves behind whether it returns or an observer throws; it returns
  when no observer of the variable throws and the invariant assertions are off.
\<close>

theorem updateSource_ticks_once:
  assumes x: "getVar k variableId = Some x" and src: "producer x = None"
    and un: "unproduced variableId k"
  shows "logicalClock (kernel_of (updateSource variableId val k)) = logicalClock k + 1
    \<and> (\<exists>x'. getVar (kernel_of (updateSource variableId val k)) variableId = Some x'
          \<and> cause_at x' = logicalClock k + 1
          \<and> value_at x' = (if deepEqual (oldValueOf x) val then value_at x else logicalClock k + 1)
          \<and> result x' = (if deepEqual (oldValueOf x) val then result x else Success val)
          \<and> \<not> dirty x')
    \<and> (\<not> assertInvariants (options k)
         \<and> (\<forall>ob \<in> set (observers x).
               obs_body ob (if deepEqual (oldValueOf x) val then result x else Success val) = None)
        \<longrightarrow> (\<exists>k'. updateSource variableId val k = Returned k'))"
proof -
  let ?t = "logicalClock k + 1"
  let ?k1 = "k\<lparr>logicalClock := ?t\<rparr>"
  let ?x1 = "if \<not> deepEqual (oldValueOf x) val then x\<lparr>result := Success val, value_at := ?t\<rparr> else x"
  let ?x2 = "?x1\<lparr>cause_at := ?t, dirty := False\<rparr>"
  let ?k2 = "putVar variableId ?x2 ?k1"
  have upd: "updateSource variableId val k
      = andThen (markDirty variableId ?t True ?k2) (cleanVariable variableId)"
    using x src
    by (simp add: updateSource_def nextLogicalClock_def getVariable_def oldValueOf_def Let_def)
  have x2: "getVar ?k2 variableId = Some ?x2" using x by (simp add: getVar_putVar)
  have u2: "unproduced variableId ?k2"
    using un by (rule unproduced_same [rotated]) (simp add: fun_eq_iff)
  have s3: "stable variableId ?t ?k2 (kernel_of (markDirty variableId ?t True ?k2))"
    by (rule stable_markDirty)
  let ?k3 = "kernel_of (markDirty variableId ?t True ?k2)"
  have x3: "getVar ?k3 variableId = Some ?x2" using s3 u2 x2 by (simp add: stable_def)
  have c3: "logicalClock ?k3 = ?t" using s3 by (simp add: stable_def putVar_def)
  have o3: "options ?k3 = options k" using s3 by (simp add: stable_def putVar_def)
  let ?k4 = "kernel_of (updateSource variableId val k)"
  have f4: "vframe ?k4 = vframe ?k3"
  proof (cases "markDirty variableId ?t True ?k2")
    case (Returned k3)
    with upd show ?thesis by (simp add: vframe_cleanVariable)
  next
    case (Threw e k3)
    with upd show ?thesis by simp
  qed
  have x4: "getVar ?k4 variableId = Some ?x2" using getVar_vframe [OF f4] x3 by simp
  have c4: "logicalClock ?k4 = ?t" using clock_vframe [OF f4] c3 by simp
  have ret: "\<exists>k'. updateSource variableId val k = Returned k'"
    if off: "\<not> assertInvariants (options k)"
      and quiet: "\<forall>ob \<in> set (observers x).
               obs_body ob (if deepEqual (oldValueOf x) val then result x else Success val) = None"
  proof -
    have "\<not> assertInvariants (options ?k2)" using off by (simp add: putVar_def)
    from markDirty_returns [OF this, of variableId ?t True] obtain k3
      where k3: "markDirty variableId ?t True ?k2 = Returned k3" by (elim exE)
    then have e3: "?k3 = k3" by simp
    have q: "\<forall>ob \<in> set (observers ?x2). obs_body ob (result ?x2) = None"
      using quiet by (cases "deepEqual (oldValueOf x) val") simp_all
    have x3': "getVar k3 variableId = Some ?x2" using x3 unfolding e3 .
    have o3': "\<not> assertInvariants (options k3)" using off o3 unfolding e3 by simp
    have "\<exists>k'. cleanVariable variableId k3 = Returned k'"
      by (rule cleanVariable_returns [OF x3' q o3'])
    with upd k3 show ?thesis by simp
  qed
  from x4 c4 ret show ?thesis by simp
qed

theorem updateSource_ticks_once_witness:
  "(\<exists>x. getVar prunableY ''x'' = Some x \<and> producer x = None \<and> value_at x = 2
        \<and> result x = Success (JNum 1))
   \<and> logicalClock prunableY = 3
   \<and> logicalClock (kernel_of (updateSource ''x'' (JNum 1) prunableY)) = 4
   \<and> (\<exists>x'. getVar (kernel_of (updateSource ''x'' (JNum 1) prunableY)) ''x'' = Some x'
          \<and> cause_at x' = 4 \<and> value_at x' = 2 \<and> \<not> dirty x')
   \<and> (\<exists>k'. updateSource ''x'' (JNum 1) prunableY = Returned k')"
proof -
  obtain x where x: "getVar prunableY ''x'' = Some x" and p: "producer x = None"
    and v: "value_at x = 2" and r: "result x = Success (JNum 1)" and ob: "observers x = []"
    by (simp add: prunableY_def kernelY_def newKernel_def getVar_def)
  have un: "unproduced ''x'' prunableY"
    by (simp add: unproduced_def prunableY_def kernelY_def newKernel_def getComp_def compY_def
        split: if_splits)
  have clk: "logicalClock prunableY = 3" by (simp add: prunableY_def kernelY_def newKernel_def)
  have off: "\<not> assertInvariants (options prunableY)"
    by (simp add: prunableY_def kernelY_def newKernel_def defaultOptions_def)
  have eq: "deepEqual (oldValueOf x) (JNum 1)" using r by (simp add: oldValueOf_def)
  from updateSource_ticks_once [OF x p un, of "JNum 1"] eq off ob clk v x p r
  show ?thesis by auto
qed

subsection \<open>Counters below zero\<close>

text \<open>
  C6.  The table does not hold for every computation the kernel can hold.  The closure
  that \<^verbatim>\<open>observe\<close> returns has no guard against a second call: called twice, it leaves the
  dirty computation \<open>Y\<close> with \<open>observeCount = -1\<close>.  The getter tests \<open>observeCount = 0\<close>, where
  its documentation and \<^verbatim>\<open>isRecursivelyObserved\<close> say \<open>observeCount > 0\<close>, so the state of \<open>Y\<close>
  is Ready although nobody observes it, \<open>Y\<close> is queued, and the dispatch guard lets its body
  run.
\<close>

theorem double_unsubscribe_ready_unobserved:
  "(case unsubscribe ''y'' observerSeven neverRunY of
      Returned k1 \<Rightarrow>
        (case unsubscribe ''y'' observerSeven k1 of
           Returned k2 \<Rightarrow>
             (case getComp k2 ''Y'' of
                Some cp \<Rightarrow> c_dirty cp \<and> c_observeCount cp = - 1 \<and> c_dirtyInputCount cp = 0
                  \<and> state cp = Ready
                  \<and> \<not> (c_dirty cp \<and> c_observeCount cp > 0 \<and> c_dirtyInputCount cp = 0)
                  \<and> readyQueue k2 = [''Y'']
                  \<and> (case executeComputation ''Y'' k2 of
                        BodyInvoked tid k3 \<Rightarrow> True
                      | _ \<Rightarrow> False)
              | None \<Rightarrow> False)
         | Threw e k2 \<Rightarrow> False)
    | Threw e k1 \<Rightarrow> False)"
  by (simp add: unsubscribe_def propagateObserveCountUpward_def deleteObserver_def
      executeComputation_def maybeSkipExecution_def shouldExecute_def setupExecutionTask_def
      neverRunY_def kernelY_def compY_def newKernel_def observerSeven_def store_defs
      setter_defs isStale_def Let_def)

theorem double_unsubscribe_ready_unobserved_witness:
  "\<exists>k1 k2 cp. unsubscribe ''y'' observerSeven neverRunY = Returned k1
     \<and> unsubscribe ''y'' observerSeven k1 = Returned k2
     \<and> getComp k2 ''Y'' = Some cp \<and> state cp = Ready \<and> c_observeCount cp = - 1"
  using double_unsubscribe_ready_unobserved
  by (auto split: outcome.splits option.splits)

subsection \<open>Commits cut short by an observer\<close>

text \<open>
  C7.  Input pruning does not always end with the outputs clean and the computation not
  dirty.  \<open>Y\<close> is Ready, has run before and its input has not changed since, so the dispatch
  prunes and the body is not invoked; but an observer of the output \<open>y\<close> throws when \<open>y\<close> is
  cleaned, \<^verbatim>\<open>notifyObservers\<close> does not catch it, the exception leaves the dispatch and \<open>Y\<close>
  stays dirty.
\<close>

theorem input_pruning_throwing_observer:
  "(case observe ''y'' throwingObserver prunableY of
      Returned k1 \<Rightarrow>
        (case getComp k1 ''Y'' of
           Some cp \<Rightarrow> state cp = Ready \<and> 0 < input_version cp \<and> \<not> shouldExecute k1 cp
         | None \<Rightarrow> False)
        \<and> (case executeComputation ''Y'' k1 of
              DispatchThrew e k2 \<Rightarrow>
                e = ThrownValue (JStr ''boom'')
                \<and> (case getComp k2 ''Y'' of Some cp \<Rightarrow> c_dirty cp | None \<Rightarrow> False)
            | _ \<Rightarrow> False)
    | Threw e k1 \<Rightarrow> False)"
  by (simp add: observe_def propagateObserveCountUpward_def addObserver_def
      executeComputation_def maybeSkipExecution_def shouldExecute_def getMaxInputVersion_def
      cleanOutputDirty_def prunableY_def kernelY_def compY_def newKernel_def observerSeven_def
      throwingObserver_def store_defs clean_defs setter_defs isStale_def Let_def)

theorem input_pruning_throwing_observer_witness:
  "\<exists>k1 k2 cp. observe ''y'' throwingObserver prunableY = Returned k1
     \<and> executeComputation ''Y'' k1 = DispatchThrew (ThrownValue (JStr ''boom'')) k2
     \<and> getComp k2 ''Y'' = Some cp \<and> c_dirty cp"
  using input_pruning_throwing_observer
  by (auto split: outcome.splits option.splits dispatch.splits)

text \<open>
  C10.  An error commit does not always reach every output.  The body of \<open>E\<close> fails with
  the error \<open>fail\<close>; the first output \<open>u\<close> gets the error result, the observer of \<open>u\<close> throws
  when \<open>u\<close> is cleaned, \<^verbatim>\<open>notifyObservers\<close> does not catch it, and the loop over the outputs
  is left: the second output \<open>w\<close> keeps its uninitialized result and stays dirty, \<open>E\<close> stays
  dirty, and what leaves \<^verbatim>\<open>handleExecutionError\<close> is the observer's exception, not the
  error of the body.
\<close>

theorem error_commit_throwing_observer:
  "(case observe ''u'' throwingObserver runningE of
      Returned k1 \<Rightarrow>
        (case handleExecutionError ''E'' (JsError ''fail'') 1 k1 of
           Threw e k2 \<Rightarrow>
             e = ThrownValue (JStr ''boom'')
             \<and> map_option result (getVar k2 ''u'') = Some (Error (JsError ''fail''))
             \<and> map_option result (getVar k2 ''w'') = Some Uninitialized
             \<and> map_option dirty (getVar k2 ''w'') = Some True
             \<and> map_option c_dirty (getComp k2 ''E'') = Some True
         | Returned k2 \<Rightarrow> False)
    | Threw e k1 \<Rightarrow> False)"
  by (simp add: observe_def propagateObserveCountUpward_def addObserver_def
      handleExecutionError_def updateOutputsWithError_def isAbortError_def nextLogicalClock_def
      logError_def runningE_def compE_def newKernel_def defaultOptions_def observerSeven_def
      throwingObserver_def store_defs clean_defs setter_defs isStale_def Let_def)

subsection \<open>Output pruning notifies\<close>

lemma delivered_frame: "frame k' = frame k \<Longrightarrow> delivered k' = delivered k"
  by (simp add: frame_def)

lemma callLoop_returned:
  "forEach obs (callObserver v) k = Returned k' \<Longrightarrow> getVar k v = Some x \<Longrightarrow>
   delivered k' = delivered k @ map (\<lambda>ob. (v, obs_id ob, result x)) obs"
proof (induction obs arbitrary: k)
  case Nil
  then show ?case by simp
next
  case (Cons ob obs)
  let ?k1 = "k\<lparr>delivered := delivered k @ [(v, obs_id ob, result x)]\<rparr>"
  from Cons.prems have quiet: "obs_body ob (result x) = None"
    by (cases "obs_body ob (result x)") (simp_all add: callObserver_def Let_def)
  with Cons.prems have st: "callObserver v ob k = Returned ?k1"
    by (simp add: callObserver_def Let_def)
  with Cons.prems have r: "forEach obs (callObserver v) ?k1 = Returned k'" by simp
  have g: "getVar ?k1 v = Some x" using Cons.prems(2) by simp
  from Cons.IH [OF r g] show ?case by simp
qed

lemma delivered_decrementDirtyInputCount:
  "delivered (kernel_of (decrementDirtyInputCount c v k)) = delivered k"
  by (simp add: decrementDirtyInputCount_def assertDirtyInputCount_def logError_def Let_def
      delivered_frame [OF frame_set_dirtyInputCount] split: option.splits)

lemma delivered_cleanVariable:
  assumes r: "cleanVariable v k = Returned k'" and v: "getVar k v = Some x"
  shows "delivered k' = delivered k @ map (\<lambda>ob. (v, obs_id ob, result x)) (observers x)"
proof (cases "notifyObservers v k")
  case (Threw e k1)
  with r show ?thesis by (simp add: cleanVariable_def)
next
  case (Returned k1)
  then have "forEach (observers x) (callObserver v) k = Returned k1"
    using v by (simp add: notifyObservers_def)
  from callLoop_returned [OF this v]
  have d1: "delivered k1 = delivered k @ map (\<lambda>ob. (v, obs_id ob, result x)) (observers x)" .
  have f1: "vframe k1 = vframe k" using vframe_notifyObservers [of v k] Returned by simp
  have v1: "getVar k1 v = Some x" using v getVar_vframe [OF f1] by simp
  let ?loop = "forEach (dependents x)
             (\<lambda>c k2. case (getComp k2 c, getVar k2 v) of
                        (Some cp, Some x2) \<Rightarrow>
                          if isInputOfComputation x2 cp
                          then decrementDirtyInputCount c v k2
                          else Returned k2
                      | _ \<Rightarrow> Returned k2)
             k1"
  have inv: "delivered (kernel_of ?loop) = delivered k1"
    by (rule forEach_inv [where P = "\<lambda>k'. delivered k' = delivered k1"])
       (auto simp: delivered_decrementDirtyInputCount split: option.splits)
  have "cleanVariable v k = ?loop"
    using Returned v1 by (simp add: cleanVariable_def)
  with r have "?loop = Returned k'" by simp
  then have "kernel_of ?loop = k'" by simp
  with inv have "delivered k' = delivered k1" by simp
  with d1 show ?thesis by simp
qed

lemma notifications_cleaner:
  "cleaner k k' \<Longrightarrow> notifications k' v = notifications k v"
proof (cases "getVar k v")
  case None
  assume "cleaner k k'"
  then have "getVar k' v = None" using None by (rule cleanerD_None)
  with None show ?thesis by (simp add: notifications_def)
next
  case (Some x)
  assume "cleaner k k'"
  from cleanerD [OF this Some] obtain x' where "getVar k' v = Some x'"
    "observers x' = observers x" "result x' = result x" by blast
  with Some show ?thesis by (simp add: notifications_def)
qed

lemma outputValueChanged_cleaner:
  "cleaner k k' \<Longrightarrow> outputValueChanged k' newOutputs v = outputValueChanged k newOutputs v"
proof (cases "getVar k v")
  case None
  assume "cleaner k k'"
  then have "getVar k' v = None" using None by (rule cleanerD_None)
  with None show ?thesis by (simp add: outputValueChanged_def)
next
  case (Some x)
  assume "cleaner k k'"
  from cleanerD [OF this Some] obtain x' where "getVar k' v = Some x'"
    "result x' = result x" by blast
  with Some show ?thesis by (simp add: outputValueChanged_def oldValueOf_def)
qed

lemma pruneLoop:
  fixes c :: string and newOutputs :: "(string \<times> jsval) list"
  defines "step \<equiv> \<lambda>out k2.
                  case (getVar k2 out, getComp k2 c) of
                    (Some x, Some cp2) \<Rightarrow>
                      let valueChanged = \<not> deepEqual (oldValueOf x) (outputOf newOutputs out);
                          x1 = (if valueChanged
                                then x\<lparr>result := Success (outputOf newOutputs out),
                                       value_at := 0\<rparr>
                                else x);
                          x2 = x1\<lparr>cause_at := c_cause_at cp2, dirty := False\<rparr>
                      in cleanVariable out (putVar out x2 k2)
                  | _ \<Rightarrow> Returned k2"
  assumes "forEach outs step k = Returned k'"
    and "\<forall>out \<in> set outs. \<not> outputValueChanged k newOutputs out"
    and "getComp k c \<noteq> None"
  shows "delivered k' = delivered k @ concat (map (notifications k) outs)
       \<and> cleaner k k'
       \<and> (\<forall>out \<in> set outs. \<forall>x'. getVar k' out = Some x' \<longrightarrow> \<not> dirty x')"
  using assms(2-)
proof (induction outs arbitrary: k)
  case Nil
  then show ?case by (simp add: cleaner_refl)
next
  case (Cons out outs)
  from Cons.prems(3) obtain cp2 where cp2: "getComp k c = Some cp2" by auto
  have "\<exists>k4. step out k = Returned k4 \<and> delivered k4 = delivered k @ notifications k out
          \<and> cleaner k k4 \<and> getComp k4 c \<noteq> None
          \<and> (\<forall>x'. getVar k4 out = Some x' \<longrightarrow> \<not> dirty x')"
  proof (cases "getVar k out")
    case None
    with Cons.prems(3) show ?thesis by (simp add: step_def notifications_def cleaner_refl)
  next
    case (Some x)
    from Cons.prems(2) Some have eq: "deepEqual (oldValueOf x) (outputOf newOutputs out)"
      by (simp add: outputValueChanged_def)
    let ?x2 = "x\<lparr>cause_at := c_cause_at cp2, dirty := False\<rparr>"
    let ?k3 = "putVar out ?x2 k"
    have st: "step out k = cleanVariable out ?k3"
      using Some cp2 eq by (simp add: step_def)
    from Cons.prems(1) obtain k4 where k4: "step out k = Returned k4"
      by (cases "step out k") simp_all
    with st have r4: "cleanVariable out ?k3 = Returned k4" by simp
    have x3: "getVar ?k3 out = Some ?x2" using Some by (simp add: getVar_putVar)
    from delivered_cleanVariable [OF r4 x3]
    have d4: "delivered k4 = delivered k @ notifications k out"
      using Some by (simp add: notifications_def putVar_def)
    have f4: "vframe k4 = vframe ?k3" using vframe_cleanVariable [of out ?k3] r4 by simp
    have g4: "getVar k4 = getVar ?k3" using f4 by (rule getVar_vframe)
    have c3: "cleaner k ?k3"
      unfolding cleaner_def using Some by (auto simp: getVar_putVar split: option.splits)
    have c4: "cleaner k k4" using c3 cleaner_same [OF g4] by (rule cleaner_trans)
    have e4: "getComp k4 c \<noteq> None"
    proof -
      have "dic_le ?k3 k4" using dic_le_cleanVariable [of ?k3 out] r4 by simp
      moreover have "getComp ?k3 c \<noteq> None" using cp2 by simp
      ultimately show ?thesis by (rule getComp_dic_le)
    qed
    have "getVar k4 out = Some ?x2" using g4 x3 by simp
    with k4 d4 c4 e4 show ?thesis by simp
  qed
  then obtain k4 where st: "step out k = Returned k4"
    and d4: "delivered k4 = delivered k @ notifications k out"
    and c4: "cleaner k k4" and e4: "getComp k4 c \<noteq> None"
    and out4: "\<forall>x'. getVar k4 out = Some x' \<longrightarrow> \<not> dirty x'"
    by blast
  from Cons.prems(1) st have r: "forEach outs step k4 = Returned k'" by simp
  have same4: "\<forall>o' \<in> set outs. \<not> outputValueChanged k4 newOutputs o'"
    using Cons.prems(2) by (simp add: outputValueChanged_cleaner [OF c4])
  from Cons.IH [OF r same4 e4]
  have d': "delivered k' = delivered k4 @ concat (map (notifications k4) outs)"
    and c': "cleaner k4 k'"
    and outs': "\<forall>o' \<in> set outs. \<forall>x'. getVar k' o' = Some x' \<longrightarrow> \<not> dirty x'"
    by simp_all
  have n: "map (notifications k4) outs = map (notifications k) outs"
    by (simp add: notifications_cleaner [OF c4])
  have del: "delivered k' = delivered k @ concat (map (notifications k) (out # outs))"
    using d' d4 n by simp
  have cl: "cleaner k k'" using c4 c' by (rule cleaner_trans)
  have head: "\<forall>x'. getVar k' out = Some x' \<longrightarrow> \<not> dirty x'"
  proof (intro allI impI)
    fix x' assume x': "getVar k' out = Some x'"
    show "\<not> dirty x'"
    proof (cases "getVar k4 out")
      case None
      with c' have "getVar k' out = None" by (simp add: cleanerD_None)
      with x' show ?thesis by simp
    next
      case (Some x4)
      from cleanerD [OF c' Some] x' have "dirty x' \<longrightarrow> dirty x4" by auto
      with out4 Some show ?thesis by simp
    qed
  qed
  from del cl head outs' show ?case by simp
qed


lemma pruneLoop_returns:
  fixes c :: string and newOutputs :: "(string \<times> jsval) list"
  defines "step \<equiv> \<lambda>out k2.
                  case (getVar k2 out, getComp k2 c) of
                    (Some x, Some cp2) \<Rightarrow>
                      let valueChanged = \<not> deepEqual (oldValueOf x) (outputOf newOutputs out);
                          x1 = (if valueChanged
                                then x\<lparr>result := Success (outputOf newOutputs out),
                                       value_at := 0\<rparr>
                                else x);
                          x2 = x1\<lparr>cause_at := c_cause_at cp2, dirty := False\<rparr>
                      in cleanVariable out (putVar out x2 k2)
                  | _ \<Rightarrow> Returned k2"
  assumes quiet: "\<forall>out \<in> set outs. \<forall>x. getVar k out = Some x \<longrightarrow>
             (\<forall>ob \<in> set (observers x). obs_body ob (result x) = None)"
    and off: "\<not> assertInvariants (options k)"
    and same: "\<forall>out \<in> set outs. \<not> outputValueChanged k newOutputs out"
  shows "\<exists>k'. forEach outs step k = Returned k'"
proof -
  let ?P = "\<lambda>k2. cleaner k k2 \<and> \<not> assertInvariants (options k2)"
  have "\<exists>k'. forEach outs step k = Returned k' \<and> ?P k'"
  proof (rule forEach_returns [where P = ?P])
    show "?P k" using off by (simp add: cleaner_refl)
  next
    fix out and k2 :: kernel
    assume out: "out \<in> set outs" and P: "?P k2"
    then have cl: "cleaner k k2" and o2: "\<not> assertInvariants (options k2)" by simp_all
    show "\<exists>k'. step out k2 = Returned k' \<and> ?P k'"
    proof (cases "getVar k2 out")
      case None
      with P show ?thesis by (simp add: step_def)
    next
      case (Some x)
      show ?thesis
      proof (cases "getComp k2 c")
        case None
        with Some P show ?thesis by (simp add: step_def)
      next
        case (Some cp2)
        note x = \<open>getVar k2 out = Some x\<close>
        obtain x0 where x0: "getVar k out = Some x0" "observers x = observers x0"
          "result x = result x0"
        proof (cases "getVar k out")
          case None
          with cl have "getVar k2 out = None" by (simp add: cleanerD_None)
          with x show ?thesis by simp
        next
          case (Some x0)
          from cleanerD [OF cl Some] x have "observers x = observers x0" "result x = result x0"
            by auto
          with Some that show ?thesis by blast
        qed
        from same out have "\<not> outputValueChanged k newOutputs out" by blast
        with x0 have "deepEqual (oldValueOf x0) (outputOf newOutputs out)"
          by (simp add: outputValueChanged_def)
        moreover from x0 have "oldValueOf x0 = oldValueOf x" by (simp add: oldValueOf_def)
        ultimately have eq: "deepEqual (oldValueOf x) (outputOf newOutputs out)" by simp
        let ?x2 = "x\<lparr>cause_at := c_cause_at cp2, dirty := False\<rparr>"
        let ?k3 = "putVar out ?x2 k2"
        have st: "step out k2 = cleanVariable out ?k3"
          using x Some eq by (simp add: step_def)
        have x3: "getVar ?k3 out = Some ?x2" using x by (simp add: getVar_putVar)
        have q3: "\<forall>ob \<in> set (observers ?x2). obs_body ob (result ?x2) = None"
          using quiet out x0 by simp
        have o3: "\<not> assertInvariants (options ?k3)" using o2 by (simp add: putVar_def)
        from cleanVariable_returns [OF x3 q3 o3] obtain k4
          where k4: "cleanVariable out ?k3 = Returned k4" by (elim exE)
        have f4: "vframe k4 = vframe ?k3" using vframe_cleanVariable [of out ?k3] k4 by simp
        have g4: "getVar k4 = getVar ?k3" using f4 by (rule getVar_vframe)
        have c3: "cleaner k2 ?k3"
          unfolding cleaner_def using x by (auto simp: getVar_putVar split: option.splits)
        have c4: "cleaner k2 k4" using c3 cleaner_same [OF g4] by (rule cleaner_trans)
        have c5: "cleaner k k4" using cl c4 by (rule cleaner_trans)
        have o4: "\<not> assertInvariants (options k4)" using o3 options_vframe [OF f4] by simp
        from st k4 c5 o4 show ?thesis by simp
      qed
    qed
  qed
  then show ?thesis by blast
qed

text \<open>
  C1 amended.  When the body returns, for every output, a value deep-equal to the committed
  one, the commit leaves the logical clock, and the \<open>value_at\<close> and result of every
  variable, as they were, and no computation's \<open>dirtyInputCount\<close> is larger afterwards.
  The observers of the outputs are notified all the same: when the commit returns, what
  has been delivered is, output by output and observer by observer, one call with the
  output's unchanged result, and every output is clean.  The commit returns at least when
  no observer of an output throws on that result and the invariant assertions are off.
\<close>

theorem output_pruning:
  assumes c: "getComp k c = Some cp"
    and same: "\<forall>out \<in> set (outputs cp). \<not> outputValueChanged k newOutputs out"
  shows "logicalClock (kernel_of (updateOutputs c newOutputs k)) = logicalClock k
    \<and> (\<forall>v x. getVar k v = Some x \<longrightarrow>
          (\<exists>x'. getVar (kernel_of (updateOutputs c newOutputs k)) v = Some x'
                \<and> value_at x' = value_at x \<and> result x' = result x))
    \<and> (\<forall>d cd. getComp k d = Some cd \<longrightarrow>
          (\<exists>cd'. getComp (kernel_of (updateOutputs c newOutputs k)) d = Some cd'
                 \<and> c_dirtyInputCount cd' \<le> c_dirtyInputCount cd))
    \<and> (\<forall>k'. updateOutputs c newOutputs k = Returned k' \<longrightarrow>
          delivered k' = delivered k @ concat (map (notifications k) (outputs cp))
          \<and> (\<forall>out \<in> set (outputs cp). \<forall>x'. getVar k' out = Some x' \<longrightarrow> \<not> dirty x'))
    \<and> ((\<forall>out \<in> set (outputs cp). \<forall>x. getVar k out = Some x \<longrightarrow>
             (\<forall>ob \<in> set (observers x). obs_body ob (result x) = None))
        \<and> \<not> assertInvariants (options k)
        \<longrightarrow> (\<exists>k'. updateOutputs c newOutputs k = Returned k'))"
proof -
  let ?step = "\<lambda>out k2.
                  case (getVar k2 out, getComp k2 c) of
                    (Some x, Some cp2) \<Rightarrow>
                      let valueChanged = \<not> deepEqual (oldValueOf x) (outputOf newOutputs out);
                          x1 = (if valueChanged
                                then x\<lparr>result := Success (outputOf newOutputs out),
                                       value_at := 0\<rparr>
                                else x);
                          x2 = x1\<lparr>cause_at := c_cause_at cp2, dirty := False\<rparr>
                      in cleanVariable out (putVar out x2 k2)
                  | _ \<Rightarrow> Returned k2"
  have noChange: "\<not> list_ex (outputValueChanged k newOutputs) (outputs cp)"
    using same by (simp add: list_ex_iff)
  have upd: "updateOutputs c newOutputs k = forEach (outputs cp) ?step k"
    using c noChange by (simp add: updateOutputs_def)
  have ex: "getComp k c \<noteq> None" using c by simp
  have notified: "\<forall>k'. updateOutputs c newOutputs k = Returned k' \<longrightarrow>
          delivered k' = delivered k @ concat (map (notifications k) (outputs cp))
          \<and> (\<forall>out \<in> set (outputs cp). \<forall>x'. getVar k' out = Some x' \<longrightarrow> \<not> dirty x')"
  proof (intro allI impI)
    fix k' assume "updateOutputs c newOutputs k = Returned k'"
    then have r: "forEach (outputs cp) ?step k = Returned k'" unfolding upd .
    from pruneLoop [OF r same ex]
    show "delivered k' = delivered k @ concat (map (notifications k) (outputs cp))
          \<and> (\<forall>out \<in> set (outputs cp). \<forall>x'. getVar k' out = Some x' \<longrightarrow> \<not> dirty x')"
      by simp
  qed
  have returns: "(\<forall>out \<in> set (outputs cp). \<forall>x. getVar k out = Some x \<longrightarrow>
             (\<forall>ob \<in> set (observers x). obs_body ob (result x) = None))
        \<and> \<not> assertInvariants (options k)
        \<longrightarrow> (\<exists>k'. updateOutputs c newOutputs k = Returned k')"
  proof
    assume a: "(\<forall>out \<in> set (outputs cp). \<forall>x. getVar k out = Some x \<longrightarrow>
             (\<forall>ob \<in> set (observers x). obs_body ob (result x) = None))
        \<and> \<not> assertInvariants (options k)"
    then have q: "\<forall>out \<in> set (outputs cp). \<forall>x. getVar k out = Some x \<longrightarrow>
             (\<forall>ob \<in> set (observers x). obs_body ob (result x) = None)"
      and off: "\<not> assertInvariants (options k)" by simp_all
    from pruneLoop_returns [OF q off same, of c]
    show "\<exists>k'. updateOutputs c newOutputs k = Returned k'" unfolding upd .
  qed
  from output_pruning_state [OF c same] notified returns show ?thesis by simp
qed

theorem output_pruning_witness:
  "getComp runningC ''C'' \<noteq> None
   \<and> \<not> outputValueChanged runningC [(''o'', JNum 1)] ''o''
   \<and> logicalClock (kernel_of (updateOutputs ''C'' [(''o'', JNum 1)] runningC)) = 5
   \<and> (\<exists>x'. getVar (kernel_of (updateOutputs ''C'' [(''o'', JNum 1)] runningC)) ''o'' = Some x'
          \<and> value_at x' = 3 \<and> result x' = Success (JNum 1))
   \<and> (\<exists>cd'. getComp (kernel_of (updateOutputs ''C'' [(''o'', JNum 1)] runningC)) ''D'' = Some cd'
          \<and> c_dirtyInputCount cd' \<le> 1)
   \<and> (\<exists>k'. updateOutputs ''C'' [(''o'', JNum 1)] runningC = Returned k'
          \<and> delivered k' = [(''o'', 7, Success (JNum 1))])"
proof -
  obtain cp where c: "getComp runningC ''C'' = Some cp" and o: "outputs cp = [''o'']"
    by (simp add: example_defs store_defs)
  have n: "\<not> outputValueChanged runningC [(''o'', JNum 1)] ''o''"
    by (simp add: outputValueChanged_def oldValueOf_def outputOf_def example_defs store_defs)
  then have same: "\<forall>out \<in> set (outputs cp).
      \<not> outputValueChanged runningC [(''o'', JNum 1)] out"
    using o by simp
  obtain x where x: "getVar runningC ''o'' = Some x" "value_at x = 3" "result x = Success (JNum 1)"
    by (simp add: example_defs store_defs)
  obtain cd where d: "getComp runningC ''D'' = Some cd" "c_dirtyInputCount cd = 1"
    by (simp add: example_defs store_defs)
  have clk: "logicalClock runningC = 5" by (simp add: example_defs)
  have q: "(\<forall>out \<in> set (outputs cp). \<forall>x. getVar runningC out = Some x \<longrightarrow>
             (\<forall>ob \<in> set (observers x). obs_body ob (result x) = None))
        \<and> \<not> assertInvariants (options runningC)"
    using o by (simp add: example_defs store_defs)
  have nt: "notifications runningC ''o'' = [(''o'', 7, Success (JNum 1))]"
    by (simp add: notifications_def example_defs store_defs)
  have d0: "delivered runningC = []" by (simp add: example_defs)
  note t = output_pruning [OF c same]
  from t q obtain k' where r: "updateOutputs ''C'' [(''o'', JNum 1)] runningC = Returned k'"
    by blast
  with t have "delivered k' = delivered runningC @ concat (map (notifications runningC) (outputs cp))"
    by blast
  with o nt d0 have dl: "delivered k' = [(''o'', 7, Success (JNum 1))]" by simp
  from t c n x d clk have first:
    "logicalClock (kernel_of (updateOutputs ''C'' [(''o'', JNum 1)] runningC)) = 5
   \<and> (\<exists>x'. getVar (kernel_of (updateOutputs ''C'' [(''o'', JNum 1)] runningC)) ''o'' = Some x'
          \<and> value_at x' = 3 \<and> result x' = Success (JNum 1))
   \<and> (\<exists>cd'. getComp (kernel_of (updateOutputs ''C'' [(''o'', JNum 1)] runningC)) ''D'' = Some cd'
          \<and> c_dirtyInputCount cd' \<le> 1)"
    by fastforce
  from first c n r dl show ?thesis by blast
qed

subsection \<open>The count of dirty inputs\<close>

lemmas qd_defs = quarantinedDependent_def newKernel_def defaultOptions_def observerSeven_def

text \<open>
  The \<open>dirtyInputCount\<close> step of \<^verbatim>\<open>_propagateCauseAtDownward\<close> comes before the early return:
  a computed input that has just become dirty is counted also when the cause is not new.
\<close>

lemma increment_before_early_return:
  assumes "getComp k c = Some cp" and "getVar k s = Some sv"
    and "isInputOfComputation sv cp" and "producer sv \<noteq> None" and "dirty sv"
    and "newCause \<le> c_cause_at cp" and "\<not> assertInvariants (options k)"
  shows "propagateCauseAtDownward c newCause (Some s) True k
       = Returned (set_dirtyInputCount c (c_dirtyInputCount cp + 1) k)"
proof -
  let ?k1 = "set_dirtyInputCount c (c_dirtyInputCount cp + 1) k"
  have t: "tryIncrementDirtyInputCount c (Some s) True k = Returned ?k1"
    using assms by (simp add: tryIncrementDirtyInputCount_def assertDirtyInputCount_def)
  have p: "profile c_cause_at ?k1 = profile c_cause_at k"
    by (rule profile_set_dirtyInputCount) simp_all
  from getComp_profile [OF p, of c] assms(1)
  obtain cp1 where "getComp ?k1 c = Some cp1" "c_cause_at cp1 = c_cause_at cp" by auto
  with t assms(6) show ?thesis by (simp add: propagateCauseAtDownward_def)
qed

text \<open>
  C4.  The count is not kept equal to the number of dirty computed runtime inputs.  When
  \<open>P\<close> commits \<open>p\<close>, \<^verbatim>\<open>_cleanVariable\<close> decrements the count of every dependent that lists \<open>p\<close> as
  a static input; the quarantined \<open>B\<close> is one, but it was never counted up, so its count
  becomes \<open>-1\<close> while it has no dirty computed runtime input.  With the invariant assertions
  on, the kernel's own check of the count fails and the commit throws.
\<close>

theorem dirtyInputCount_underflow_quarantined:
  "(case handleExecutionSuccess ''P'' [(''p'', JNum 1)] [] (quarantinedDependent False) of
      Returned k' \<Rightarrow>
        (case getComp k' ''B'' of
           Some cb \<Rightarrow> c_dirtyInputCount cb = - 1
             \<and> calculateConservativeDirtyInputCount k' cb = 0
         | None \<Rightarrow> False)
    | Threw e k' \<Rightarrow> False)
   \<and> (case handleExecutionSuccess ''P'' [(''p'', JNum 1)] [] (quarantinedDependent True) of
      Returned k' \<Rightarrow> False
    | Threw e k' \<Rightarrow> e = JsError ''dirtyInputCount mismatch''
        \<and> errorLog k' = [DirtyInputCountMismatch ''B'' (- 1) 0])"
  by (simp add: handleExecutionSuccess_def updateOutputs_def cleanUnusedInputs_def
      set_input_version_def getMaxInputVersion_def
      outputValueChanged_def oldValueOf_def outputOf_def nextLogicalClock_def logError_def
      calculateConservativeDirtyInputCount_def
      qd_defs store_defs clean_defs setter_defs Let_def)

subsection \<open>A setter touches one computation\<close>

lemma getComp_addToReadyQueue [simp]: "getComp (addToReadyQueue c k) = getComp k"
  by (simp add: addToReadyQueue_def split: option.splits)

lemma getComp_checkScheduleNeeded [simp]: "getComp (checkScheduleNeeded c s k) = getComp k"
  by (simp add: checkScheduleNeeded_def split: option.splits)

lemma getVar_setters [simp]:
  "getVar (set_dirty c b k) = getVar k"
  "getVar (set_observeCount c n k) = getVar k"
  "getVar (set_dirtyInputCount c n k) = getVar k"
  "getVar (set_cause_at c n k) = getVar k"
  by (rule getVar_vframe, rule vframe_frame, simp)+





subsection \<open>Raising \<open>cause_at\<close> under a running task\<close>



subsection \<open>What a downward propagation may change\<close>















subsection \<open>What an upward propagation may change\<close>










lemma sched_blind_cview [simp]: "sched_blind cview"
  by (simp add: sched_blind_def cview_def)




subsection \<open>Attaching a dynamic dependency\<close>










end
